theory Spec2Isabelle
  imports Complex_Main "HOL-Library.AList" "HOL-Library.Sublist"
begin

section \<open>Movie recommendation engine: the scoring pipeline of movie.py\<close>

text \<open>
  The embedding follows \<^verbatim>\<open>src/movie.py\<close> function by function.

  \<^item> A Python \<^verbatim>\<open>dict\<close> keeps its keys in insertion order and several results depend on
    that order, so a dict is an association list whose keys are pairwise distinct.
    \<open>dict_set\<close> overwrites the value of a key in place and appends a new key at the
    end, as \<^verbatim>\<open>d[k] = v\<close> does.
  \<^item> Python numbers are read in two ways. Where a statement is about which items a map
    holds, in which order, and which formula gives a score (the vectorizer, the profile
    builder, the content predictor, the blender, the booster, the handler), numbers are
    real numbers: arithmetic is exact, \<^verbatim>\<open>math.sqrt\<close> is \<open>sqrt\<close> and \<^verbatim>\<open>math.log\<close> is \<open>ln\<close>.
    Where a statement depends on rounding, on overflow or on the errors that arithmetic
    raises (the similarity kernel, the collaborative predictor, the scores of the sci-fi
    request), numbers are Python's own: ints of any size and IEEE 754 doubles with
    \<^verbatim>\<open>inf\<close> and \<^verbatim>\<open>nan\<close>; the functions on them carry the suffix \<open>_f64\<close>.
  \<^item> A string is a list of 8-bit characters, read as the code points U+0000 to U+00FF;
    \<^verbatim>\<open>str.lower\<close> and \<^verbatim>\<open>str.strip\<close> act on them as Python does on these code points.
  \<^item> Every \<^verbatim>\<open>raise\<close> the code can reach is a value \<open>Inl e\<close> of the result.
\<close>

subsection \<open>Python values\<close>

datatype py_error = ZeroDivisionError | ValueError | StopIteration | OverflowError

type_synonym ('k, 'v) dict = "('k \<times> 'v) list"

definition dict_get :: "('k, 'v) dict \<Rightarrow> 'k \<Rightarrow> 'v \<Rightarrow> 'v" where
  \<comment> \<open>\<^verbatim>\<open>d.get(k, dflt)\<close>\<close>
  "dict_get d k dflt = (case map_of d k of None \<Rightarrow> dflt | Some v \<Rightarrow> v)"

definition dict_keys :: "('k, 'v) dict \<Rightarrow> 'k list" where
  \<comment> \<open>\<^verbatim>\<open>d.keys()\<close>, in insertion order\<close>
  "dict_keys d = map fst d"

definition dict_contains :: "('k, 'v) dict \<Rightarrow> 'k \<Rightarrow> bool" where
  \<comment> \<open>\<^verbatim>\<open>k in d\<close>\<close>
  "dict_contains d k = (k \<in> set (dict_keys d))"

definition dict_set :: "'k \<Rightarrow> 'v \<Rightarrow> ('k, 'v) dict \<Rightarrow> ('k, 'v) dict" where
  \<comment> \<open>\<^verbatim>\<open>d[k] = v\<close>\<close>
  "dict_set k v d = AList.update k v d"

definition is_dict :: "('k, 'v) dict \<Rightarrow> bool" where
  \<comment> \<open>the association lists that stand for a Python dict\<close>
  "is_dict d = distinct (dict_keys d)"

definition py_sqrt :: "real \<Rightarrow> py_error + real" where
  \<comment> \<open>\<^verbatim>\<open>math.sqrt\<close>: a negative argument is a \<^verbatim>\<open>ValueError\<close>\<close>
  "py_sqrt x = (if x < 0 then Inl ValueError else Inr (sqrt x))"

definition py_div :: "real \<Rightarrow> real \<Rightarrow> py_error + real" where
  \<comment> \<open>\<^verbatim>\<open>x / y\<close>\<close>
  "py_div x y = (if y = 0 then Inl ZeroDivisionError else Inr (x / y))"

definition py_lower_char :: "char \<Rightarrow> char" where
  \<comment> \<open>the lowercase of a code point below 256: \<open>A\<close>..\<open>Z\<close> and the capital letters
      U+00C0..U+00DE (U+00D7, the multiplication sign, is not a letter) lie 32 below theirs\<close>
  "py_lower_char c =
     (let n = (of_char c :: nat)
      in if (65 \<le> n \<and> n \<le> 90) \<or> (192 \<le> n \<and> n \<le> 222 \<and> n \<noteq> 215)
         then char_of (n + 32) else c)"

definition py_lower :: "string \<Rightarrow> string" where
  \<comment> \<open>\<^verbatim>\<open>s.lower()\<close>\<close>
  "py_lower s = map py_lower_char s"

definition py_isspace :: "char \<Rightarrow> bool" where
  \<comment> \<open>the whitespace \<^verbatim>\<open>str.strip\<close> removes, among the code points below 256: tab to
      carriage return, the four separators U+001C..U+001F, the space, U+0085 and U+00A0\<close>
  "py_isspace c =
     (let n = (of_char c :: nat)
      in (9 \<le> n \<and> n \<le> 13) \<or> (28 \<le> n \<and> n \<le> 32) \<or> n = 133 \<or> n = 160)"

definition py_strip :: "string \<Rightarrow> string" where
  \<comment> \<open>\<^verbatim>\<open>s.strip()\<close>\<close>
  "py_strip s = rev (dropWhile py_isspace (rev (dropWhile py_isspace s)))"

fun py_join :: "string \<Rightarrow> string list \<Rightarrow> string" where
  \<comment> \<open>\<^verbatim>\<open>sep.join(xs)\<close>\<close>
  "py_join sep [] = []"
| "py_join sep [x] = x"
| "py_join sep (x # y # ys) = x @ sep @ py_join sep (y # ys)"

fun py_in :: "string \<Rightarrow> string \<Rightarrow> bool" where
  \<comment> \<open>\<^verbatim>\<open>q in hay\<close> on strings: \<open>q\<close> is a contiguous substring of \<open>hay\<close>\<close>
  "py_in q [] = (q = [])"
| "py_in q (c # cs) = (prefix q (c # cs) \<or> py_in q cs)"

definition sorted_desc :: "('k \<times> real) list \<Rightarrow> ('k \<times> real) list" where
  \<comment> \<open>\<^verbatim>\<open>sorted(items, key=lambda x: x[1], reverse=True)\<close>: a stable sort, descending;
      with \<^verbatim>\<open>reverse=True\<close> equal keys still keep their original order\<close>
  "sorted_desc xs = sort_key (\<lambda>x. - snd x) xs"

subsection \<open>The sample dataset\<close>

record movie =
  movie_id :: int
  title :: string
  year :: int
  genres :: "string list"
  tags :: "string list"

record peer =
  userId :: string
  peer_ratings :: "(int, real) dict"

definition MOVIES :: "movie list" where
  "MOVIES =
    [\<lparr>movie_id = 1, title = ''Inception'', year = 2010,
      genres = [''Action'', ''Sci-Fi'', ''Thriller''],
      tags = [''dream'', ''heist'', ''mind-bending'', ''nolan'']\<rparr>,
     \<lparr>movie_id = 2, title = ''The Dark Knight'', year = 2008,
      genres = [''Action'', ''Crime'', ''Drama''],
      tags = [''batman'', ''joker'', ''nolan'']\<rparr>,
     \<lparr>movie_id = 3, title = ''Interstellar'', year = 2014,
      genres = [''Adventure'', ''Drama'', ''Sci-Fi''],
      tags = [''space'', ''time'', ''nolan'', ''wormhole'']\<rparr>,
     \<lparr>movie_id = 4, title = ''The Matrix'', year = 1999,
      genres = [''Action'', ''Sci-Fi''],
      tags = [''simulation'', ''kung fu'', ''ai'']\<rparr>,
     \<lparr>movie_id = 5, title = ''Parasite'', year = 2019,
      genres = [''Drama'', ''Thriller''],
      tags = [''class'', ''korean'', ''academy awards'']\<rparr>]"

definition COMMUNITY :: "peer list" where
  "COMMUNITY =
    [\<lparr>userId = ''u_alex'', peer_ratings = [(1, 5), (2, 5), (3, 5), (4, 5)]\<rparr>,
     \<lparr>userId = ''u_bianca'', peer_ratings = [(5, 5), (3, 4)]\<rparr>]"

definition movie_ids :: "int list" where
  \<comment> \<open>\<^verbatim>\<open>[mv["id"] for mv in MOVIES]\<close>\<close>
  "movie_ids = map movie_id MOVIES"

subsection \<open>Utils: cosine similarity\<close>

definition cosine_keys :: "('k, real) dict \<Rightarrow> ('k, real) dict \<Rightarrow> 'k list" where
  \<comment> \<open>\<^verbatim>\<open>set(a.keys()) | set(b.keys())\<close>; the three sums do not depend on the order in
      which the set is iterated\<close>
  "cosine_keys a b = remdups (dict_keys a @ dict_keys b)"

fun cosine_loop ::
  "'k list \<Rightarrow> ('k, real) dict \<Rightarrow> ('k, real) dict \<Rightarrow> real \<times> real \<times> real \<Rightarrow> real \<times> real \<times> real"
where
  "cosine_loop [] a b acc = acc"
| "cosine_loop (k # ks) a b (dot, na, nb) =
     (let va = dict_get a k 0; vb = dict_get b k 0
      in cosine_loop ks a b (dot + va * vb, na + va * va, nb + vb * vb))"

definition cosine_sim :: "('k, real) dict \<Rightarrow> ('k, real) dict \<Rightarrow> py_error + real" where
  "cosine_sim a b =
     (case cosine_loop (cosine_keys a b) a b (0, 0, 0) of (dot, na, nb) \<Rightarrow>
        if na = 0 \<or> nb = 0 then Inr 0
        else (case py_sqrt na of Inl e \<Rightarrow> Inl e | Inr sa \<Rightarrow>
             (case py_sqrt nb of Inl e \<Rightarrow> Inl e | Inr sb \<Rightarrow> py_div dot (sa * sb))))"

subsection \<open>TF-IDF\<close>

definition tokens_of :: "movie \<Rightarrow> string list" where
  \<comment> \<open>\<^verbatim>\<open>[t.lower() for t in (m["genres"] + m["tags"])]\<close>\<close>
  "tokens_of m = map py_lower (genres m @ tags m)"

fun count_up :: "string list \<Rightarrow> (string, nat) dict \<Rightarrow> (string, nat) dict" where
  \<comment> \<open>\<^verbatim>\<open>for t in ts: d[t] += 1\<close> on a \<^verbatim>\<open>defaultdict(int)\<close>\<close>
  "count_up [] d = d"
| "count_up (t # ts) d = count_up ts (dict_set t (dict_get d t 0 + 1) d)"

fun df_loop :: "movie list \<Rightarrow> (string, nat) dict \<Rightarrow> (string, nat) dict" where
  \<comment> \<open>the first loop of \<^verbatim>\<open>build_tfidf\<close>, its \<^verbatim>\<open>df\<close>: each movie counts each of its
      terms once (\<^verbatim>\<open>set(tokens)\<close>). The order in which Python iterates that set only
      decides the order of the keys of \<^verbatim>\<open>df\<close> and \<^verbatim>\<open>idf\<close>, which are read by key alone.\<close>
  "df_loop [] df = df"
| "df_loop (m # ms) df = df_loop ms (count_up (remdups (tokens_of m)) df)"

definition docs_of :: "movie list \<Rightarrow> (int \<times> string list) list" where
  \<comment> \<open>the first loop of \<^verbatim>\<open>build_tfidf\<close>, its \<^verbatim>\<open>docs\<close>\<close>
  "docs_of movies = map (\<lambda>m. (movie_id m, tokens_of m)) movies"

definition idf_of :: "movie list \<Rightarrow> (string, real) dict" where
  \<comment> \<open>\<^verbatim>\<open>{t: math.log((N + 1) / (dfi + 1)) + 1 for t, dfi in df.items()}\<close>\<close>
  "idf_of movies =
     map (\<lambda>(t, dfi). (t, ln (real (length movies + 1) / real (dfi + 1)) + 1))
       (df_loop movies [])"

definition tfidf_vec :: "(string, real) dict \<Rightarrow> string list \<Rightarrow> (string, real) dict" where
  \<comment> \<open>\<^verbatim>\<open>{t: c * idf.get(t, 0) for t, c in counts.items()}\<close>\<close>
  "tfidf_vec idf tokens = map (\<lambda>(t, c). (t, real c * dict_get idf t 0)) (count_up tokens [])"

fun vectors_loop ::
  "(int \<times> string list) list \<Rightarrow> (string, real) dict \<Rightarrow> (int, (string, real) dict) dict
     \<Rightarrow> (int, (string, real) dict) dict"
where
  "vectors_loop [] idf vectors = vectors"
| "vectors_loop ((mid, tokens) # docs) idf vectors =
     vectors_loop docs idf (dict_set mid (tfidf_vec idf tokens) vectors)"

definition build_tfidf :: "movie list \<Rightarrow> (int, (string, real) dict) dict" where
  "build_tfidf movies = vectors_loop (docs_of movies) (idf_of movies) []"

subsection \<open>The user profile\<close>

fun acc_add :: "(string, real) dict \<Rightarrow> (string, real) dict \<Rightarrow> (string, real) dict" where
  \<comment> \<open>\<^verbatim>\<open>for t, w in vec.items(): acc[t] += w\<close> on a \<^verbatim>\<open>defaultdict(float)\<close>\<close>
  "acc_add [] acc = acc"
| "acc_add ((t, w) # vec) acc = acc_add vec (dict_set t (dict_get acc t 0 + w) acc)"

fun acc_loop ::
  "int list \<Rightarrow> (int, (string, real) dict) dict \<Rightarrow> (string, real) dict \<Rightarrow> (string, real) dict"
where
  "acc_loop [] tfidf_vectors acc = acc"
| "acc_loop (mid # liked) tfidf_vectors acc =
     acc_loop liked tfidf_vectors (acc_add (dict_get tfidf_vectors mid []) acc)"

definition liked_of :: "(int, real) dict \<Rightarrow> int list" where
  \<comment> \<open>\<^verbatim>\<open>[mid for mid, r in ratings.items() if r >= 4]\<close>\<close>
  "liked_of ratings = map fst (filter (\<lambda>(mid, r). r \<ge> 4) ratings)"

definition build_user_profile ::
  "(int, (string, real) dict) dict \<Rightarrow> (int, real) dict \<Rightarrow> py_error + (string, real) dict"
where
  "build_user_profile tfidf_vectors ratings =
     (let liked = liked_of ratings in
      if liked = [] then Inr []
      else
        let acc = acc_loop liked tfidf_vectors [] in
        case py_sqrt (\<Sum>v\<leftarrow>map snd acc. v * v) of
          Inl e \<Rightarrow> Inl e
        | Inr s \<Rightarrow>
            let norm = (if s = 0 then 1 else s) in
            Inr (map (\<lambda>(t, v). (t, v / norm)) acc))"

subsection \<open>Collaborative and content-based prediction\<close>

fun cf_sims ::
  "(int, real) dict \<Rightarrow> peer list \<Rightarrow> py_error + (string \<times> real \<times> (int, real) dict) list"
where
  "cf_sims ratings [] = Inr []"
| "cf_sims ratings (u # us) =
     (case cosine_sim ratings (peer_ratings u) of
        Inl e \<Rightarrow> Inl e
      | Inr sim \<Rightarrow>
          (case cf_sims ratings us of
             Inl e \<Rightarrow> Inl e
           | Inr sims \<Rightarrow> Inr ((userId u, sim, peer_ratings u) # sims)))"

definition cf_neighbors ::
  "(string \<times> real \<times> (int, real) dict) list \<Rightarrow> nat \<Rightarrow> (string \<times> real \<times> (int, real) dict) list"
where
  \<comment> \<open>\<^verbatim>\<open>sims.sort(key=lambda x: x[1], reverse=True)\<close>, then
      \<^verbatim>\<open>[s for s in sims if s[1] > 0][:k]\<close>\<close>
  "cf_neighbors sims k =
     take k (filter (\<lambda>s. fst (snd s) > 0) (sort_key (\<lambda>s. - fst (snd s)) sims))"

fun cf_accum ::
  "(string \<times> real \<times> (int, real) dict) list \<Rightarrow> int \<Rightarrow> real \<times> real \<Rightarrow> real \<times> real"
where
  \<comment> \<open>the inner loop of \<^verbatim>\<open>predict_cf\<close>; \<^verbatim>\<open>r[m]\<close> is read under \<^verbatim>\<open>if m in r\<close>\<close>
  "cf_accum [] m (num, den) = (num, den)"
| "cf_accum ((uid, sim, r) # neighbors) m (num, den) =
     (if dict_contains r m
      then cf_accum neighbors m (num + sim * dict_get r m 0, den + \<bar>sim\<bar>)
      else cf_accum neighbors m (num, den))"

fun cf_loop ::
  "int list \<Rightarrow> (int, real) dict \<Rightarrow> (string \<times> real \<times> (int, real) dict) list
     \<Rightarrow> (int, real) dict \<Rightarrow> (int, real) dict"
where
  "cf_loop [] ratings neighbors pred = pred"
| "cf_loop (m # ms) ratings neighbors pred =
     (if dict_contains ratings m then cf_loop ms ratings neighbors pred
      else
        (case cf_accum neighbors m (0, 0) of (num, den) \<Rightarrow>
           if den > 0 then cf_loop ms ratings neighbors (dict_set m (num / den) pred)
           else cf_loop ms ratings neighbors pred))"

definition predict_cf :: "(int, real) dict \<Rightarrow> peer list \<Rightarrow> nat \<Rightarrow> py_error + (int, real) dict" where
  "predict_cf ratings community k =
     (case cf_sims ratings community of
        Inl e \<Rightarrow> Inl e
      | Inr sims \<Rightarrow> Inr (cf_loop movie_ids ratings (cf_neighbors sims k) []))"

fun cb_loop ::
  "movie list \<Rightarrow> (int, (string, real) dict) dict \<Rightarrow> (string, real) dict \<Rightarrow> (int, real) dict
     \<Rightarrow> (int, real) dict \<Rightarrow> py_error + (int, real) dict"
where
  "cb_loop [] tfidf_vectors user_profile ratings scores = Inr scores"
| "cb_loop (m # ms) tfidf_vectors user_profile ratings scores =
     (if dict_contains ratings (movie_id m)
      then cb_loop ms tfidf_vectors user_profile ratings scores
      else
        (case cosine_sim user_profile (dict_get tfidf_vectors (movie_id m) []) of
           Inl e \<Rightarrow> Inl e
         | Inr sim \<Rightarrow>
             cb_loop ms tfidf_vectors user_profile ratings
               (dict_set (movie_id m) (sim * 5) scores)))"

definition predict_cb ::
  "(int, (string, real) dict) dict \<Rightarrow> (string, real) dict \<Rightarrow> (int, real) dict
     \<Rightarrow> py_error + (int, real) dict"
where
  "predict_cb tfidf_vectors user_profile ratings =
     cb_loop MOVIES tfidf_vectors user_profile ratings []"

subsection \<open>Blending\<close>

fun hybrid_loop ::
  "int list \<Rightarrow> (int, real) dict \<Rightarrow> (int, real) dict \<Rightarrow> real \<Rightarrow> (int, real) dict
     \<Rightarrow> (int, real) dict"
where
  "hybrid_loop [] cf_scores cb_scores alpha results = results"
| "hybrid_loop (m # ms) cf_scores cb_scores alpha results =
     (let cf = dict_get cf_scores m 0; cb = dict_get cb_scores m 0 in
      if cf \<noteq> 0 \<or> cb \<noteq> 0
      then hybrid_loop ms cf_scores cb_scores alpha
             (dict_set m (alpha * cf + (1 - alpha) * cb) results)
      else hybrid_loop ms cf_scores cb_scores alpha results)"

definition hybrid_scores :: "(int, real) dict \<Rightarrow> (int, real) dict \<Rightarrow> real \<Rightarrow> (int, real) dict" where
  "hybrid_scores cf_scores cb_scores alpha =
     sorted_desc (hybrid_loop movie_ids cf_scores cb_scores alpha [])"

subsection \<open>Prompt boost\<close>

definition find_movie :: "int \<Rightarrow> py_error + movie" where
  \<comment> \<open>\<^verbatim>\<open>next(m for m in MOVIES if m["id"] == mid)\<close>: \<^verbatim>\<open>StopIteration\<close> when no movie
      has the identifier\<close>
  "find_movie mid =
     (case find (\<lambda>m. movie_id m = mid) MOVIES of None \<Rightarrow> Inl StopIteration | Some m \<Rightarrow> Inr m)"

definition haystack :: "movie \<Rightarrow> string" where
  \<comment> \<open>\<^verbatim>\<open>" ".join([m["title"]] + m["genres"] + m["tags"]).lower()\<close>\<close>
  "haystack m = py_lower (py_join '' '' ([title m] @ genres m @ tags m))"

fun boost_loop :: "(int, real) dict \<Rightarrow> string \<Rightarrow> (int, real) dict \<Rightarrow> py_error + (int, real) dict" where
  "boost_loop [] q boosted = Inr boosted"
| "boost_loop ((mid, score) # hybrid) q boosted =
     (case find_movie mid of
        Inl e \<Rightarrow> Inl e
      | Inr m \<Rightarrow>
          (let boost = (if py_in q (haystack m) then 2 else 0)
           in boost_loop hybrid q (dict_set mid (score + boost) boosted)))"

definition apply_prompt_boost ::
  "(int, real) dict \<Rightarrow> string option \<Rightarrow> py_error + (int, real) dict"
where
  \<comment> \<open>\<^verbatim>\<open>not prompt\<close> holds of \<^verbatim>\<open>None\<close> and of the empty string, of no other string\<close>
  "apply_prompt_boost hybrid prompt =
     (case prompt of
        None \<Rightarrow> Inr hybrid
      | Some p \<Rightarrow>
          if p = [] then Inr hybrid
          else
            (case boost_loop hybrid (py_lower p) [] of
               Inl e \<Rightarrow> Inl e
             | Inr boosted \<Rightarrow> Inr (sorted_desc boosted)))"

subsection \<open>The request handler\<close>

record page =
  recs :: "(movie \<times> real \<times> bool) list option"
  error :: "string option"

definition pipeline_hybrid :: "(int, real) dict \<Rightarrow> py_error + (int, real) dict" where
  \<comment> \<open>lines 198 to 202 of \<^verbatim>\<open>index\<close>: from the ratings to the blended scores\<close>
  "pipeline_hybrid ratings =
     (let tfidf = build_tfidf MOVIES in
      case build_user_profile tfidf ratings of
        Inl e \<Rightarrow> Inl e
      | Inr user_profile \<Rightarrow>
          (case predict_cf ratings COMMUNITY 3 of
             Inl e \<Rightarrow> Inl e
           | Inr cf \<Rightarrow>
               (case predict_cb tfidf user_profile ratings of
                  Inl e \<Rightarrow> Inl e
                | Inr cb \<Rightarrow> Inr (hybrid_scores cf cb 0.6))))"

fun recs_loop :: "(int, real) dict \<Rightarrow> string \<Rightarrow> py_error + (movie \<times> real \<times> bool) list" where
  \<comment> \<open>lines 206 to 209 of \<^verbatim>\<open>index\<close>\<close>
  "recs_loop [] prompt = Inr []"
| "recs_loop ((mid, score) # boosted) prompt =
     (case find_movie mid of
        Inl e \<Rightarrow> Inl e
      | Inr m \<Rightarrow>
          (let boosted_flag = py_in (py_lower prompt) (haystack m) in
           case recs_loop boosted prompt of
             Inl e \<Rightarrow> Inl e
           | Inr rs \<Rightarrow> Inr ((m, score, boosted_flag) # rs)))"

definition not_found_message :: "string \<Rightarrow> string" where
  "not_found_message movie_name =
     ''Movie '' @ [CHR 0x27] @ movie_name @ [CHR 0x27]
       @ '' not found in dataset. Try Inception, Interstellar, etc.''"

definition index_post :: "string \<Rightarrow> int option \<Rightarrow> string \<Rightarrow> py_error + page" where
  \<comment> \<open>The POST branch of \<^verbatim>\<open>index\<close>, up to the rendering. \<open>name_field\<close> and \<open>prompt\<close>
      are the form's \<^verbatim>\<open>movie_name\<close> and \<^verbatim>\<open>prompt\<close> (the empty string when the field is
      missing); \<open>rating_field\<close> is the integer \<^verbatim>\<open>int(request.form.get("rating"))\<close>
      yields, \<open>None\<close> when that call raises (the model does not tell the \<^verbatim>\<open>TypeError\<close>
      of a missing field from the \<^verbatim>\<open>ValueError\<close> of a field that is not a number).\<close>
  "index_post name_field rating_field prompt =
     (let movie_name = py_lower (py_strip name_field) in
      case rating_field of
        None \<Rightarrow> Inl ValueError
      | Some rating \<Rightarrow>
          (case find (\<lambda>m. py_in movie_name (py_lower (title m))) MOVIES of
             None \<Rightarrow> Inr \<lparr>recs = None, error = Some (not_found_message movie_name)\<rparr>
           | Some mv \<Rightarrow>
               (case pipeline_hybrid [(movie_id mv, real_of_int rating)] of
                  Inl e \<Rightarrow> Inl e
                | Inr hybrid \<Rightarrow>
                    (case apply_prompt_boost hybrid (Some prompt) of
                       Inl e \<Rightarrow> Inl e
                     | Inr boosted \<Rightarrow>
                         (case recs_loop (take 5 boosted) prompt of
                            Inl e \<Rightarrow> Inl e
                          | Inr rs \<Rightarrow> Inr \<lparr>recs = Some rs, error = None\<rparr>)))))"

subsection \<open>Python's numbers: ints and doubles\<close>

text \<open>
  A Python number is an \<^verbatim>\<open>int\<close> of any size or a \<^verbatim>\<open>float\<close>, an IEEE 754 binary64 value:
  a finite double, \<^verbatim>\<open>inf\<close>, \<^verbatim>\<open>-inf\<close> or \<^verbatim>\<open>nan\<close>. The two zeros are one value: they compare
  equal and the program never divides by either. \<open>f64_round\<close> is rounding to the nearest
  double, ties to even; below \<open>2\<^sup>-\<^sup>1\<^sup>0\<^sup>2\<^sup>2\<close> the exponent stays at \<open>-1022\<close>, which gives the
  subnormal numbers and the underflow to zero. \<open>f64_of_real\<close> adds the overflow to an
  infinity, from \<open>2\<^sup>1\<^sup>0\<^sup>2\<^sup>4\<close> on.

  The operators are Python's. Between two ints \<^verbatim>\<open>+\<close> and \<^verbatim>\<open>*\<close> are exact and \<^verbatim>\<open>/\<close> is the
  correctly rounded quotient. When an int meets a float it is converted first, and the
  conversion raises \<^verbatim>\<open>OverflowError\<close> when the int rounds to \<open>2\<^sup>1\<^sup>0\<^sup>2\<^sup>4\<close> or more. Between
  floats no operator raises, except the division by zero (\<^verbatim>\<open>ZeroDivisionError\<close>);
  \<open>f64_div\<close> is used with a non-zero divisor only and has the value \<^verbatim>\<open>nan\<close> at zero.
  \<^verbatim>\<open>math.sqrt\<close> converts its argument and raises \<^verbatim>\<open>ValueError\<close> below zero.
\<close>

definition round_half_even :: "real \<Rightarrow> int" where
  "round_half_even y =
     (let f = \<lfloor>y\<rfloor> in
      if y - of_int f < 1 / 2 then f
      else if 1 / 2 < y - of_int f then f + 1
      else if even f then f else f + 1)"

definition f64_exp :: "real \<Rightarrow> int" where
  "f64_exp x = max \<lfloor>log 2 \<bar>x\<bar>\<rfloor> (- 1022)"

definition f64_round :: "real \<Rightarrow> real" where
  "f64_round x =
     (if x = 0 then 0
      else let u = 2 powr (of_int (f64_exp x) - 52)
           in u * of_int (round_half_even (x / u)))"

datatype f64 = Finite real | PosInf | NegInf | NaN

datatype num = PyInt int | PyFloat f64

definition py_then :: "py_error + 'a \<Rightarrow> ('a \<Rightarrow> py_error + 'b) \<Rightarrow> py_error + 'b" where
  "py_then r f = (case r of Inl e \<Rightarrow> Inl e | Inr v \<Rightarrow> f v)"

definition f64_of_real :: "real \<Rightarrow> f64" where
  "f64_of_real x =
     (let y = f64_round x
      in if 2 ^ 1024 \<le> y then PosInf else if y \<le> - (2 ^ 1024) then NegInf else Finite y)"

fun f64_add :: "f64 \<Rightarrow> f64 \<Rightarrow> f64" where
  "f64_add (Finite x) (Finite y) = f64_of_real (x + y)"
| "f64_add NaN b = NaN"
| "f64_add a NaN = NaN"
| "f64_add PosInf NegInf = NaN"
| "f64_add NegInf PosInf = NaN"
| "f64_add PosInf b = PosInf"
| "f64_add a PosInf = PosInf"
| "f64_add NegInf b = NegInf"
| "f64_add a NegInf = NegInf"

fun f64_mul :: "f64 \<Rightarrow> f64 \<Rightarrow> f64" where
  "f64_mul (Finite x) (Finite y) = f64_of_real (x * y)"
| "f64_mul NaN b = NaN"
| "f64_mul a NaN = NaN"
| "f64_mul (Finite x) b = (if x = 0 then NaN else if (0 < x) = (b = PosInf) then PosInf else NegInf)"
| "f64_mul a (Finite y) = (if y = 0 then NaN else if (0 < y) = (a = PosInf) then PosInf else NegInf)"
| "f64_mul a b = (if a = b then PosInf else NegInf)"

fun f64_div :: "f64 \<Rightarrow> f64 \<Rightarrow> f64" where
  "f64_div (Finite x) (Finite y) = (if y = 0 then NaN else f64_of_real (x / y))"
| "f64_div NaN b = NaN"
| "f64_div a NaN = NaN"
| "f64_div (Finite x) b = Finite 0"
| "f64_div a (Finite y) = (if (0 < y) = (a = PosInf) then PosInf else NegInf)"
| "f64_div a b = NaN"

fun f64_sqrt :: "f64 \<Rightarrow> py_error + f64" where
  "f64_sqrt (Finite x) = (if x < 0 then Inl ValueError else Inr (f64_of_real (sqrt x)))"
| "f64_sqrt PosInf = Inr PosInf"
| "f64_sqrt NegInf = Inl ValueError"
| "f64_sqrt NaN = Inr NaN"

fun f64_abs :: "f64 \<Rightarrow> f64" where
  "f64_abs (Finite x) = Finite \<bar>x\<bar>"
| "f64_abs PosInf = PosInf"
| "f64_abs NegInf = PosInf"
| "f64_abs NaN = NaN"

definition to_f64 :: "num \<Rightarrow> py_error + f64" where
  "to_f64 v =
     (case v of
        PyFloat f \<Rightarrow> Inr f
      | PyInt n \<Rightarrow>
          (case f64_of_real (of_int n) of Finite y \<Rightarrow> Inr (Finite y) | _ \<Rightarrow> Inl OverflowError))"

fun num_add :: "num \<Rightarrow> num \<Rightarrow> py_error + num" where
  "num_add (PyInt m) (PyInt n) = Inr (PyInt (m + n))"
| "num_add a b = py_then (to_f64 a) (\<lambda>x. py_then (to_f64 b) (\<lambda>y. Inr (PyFloat (f64_add x y))))"

fun num_mul :: "num \<Rightarrow> num \<Rightarrow> py_error + num" where
  "num_mul (PyInt m) (PyInt n) = Inr (PyInt (m * n))"
| "num_mul a b = py_then (to_f64 a) (\<lambda>x. py_then (to_f64 b) (\<lambda>y. Inr (PyFloat (f64_mul x y))))"

fun num_div :: "num \<Rightarrow> num \<Rightarrow> py_error + num" where
  "num_div (PyInt m) (PyInt n) =
     (if n = 0 then Inl ZeroDivisionError
      else (case f64_of_real (of_int m / of_int n) of
              Finite y \<Rightarrow> Inr (PyFloat (Finite y)) | _ \<Rightarrow> Inl OverflowError))"
| "num_div a b =
     py_then (to_f64 a) (\<lambda>x. py_then (to_f64 b) (\<lambda>y.
       if y = Finite 0 then Inl ZeroDivisionError else Inr (PyFloat (f64_div x y))))"

fun num_abs :: "num \<Rightarrow> num" where
  "num_abs (PyInt n) = PyInt \<bar>n\<bar>"
| "num_abs (PyFloat f) = PyFloat (f64_abs f)"

definition math_sqrt :: "num \<Rightarrow> py_error + num" where
  "math_sqrt v = py_then (to_f64 v) (\<lambda>x. py_then (f64_sqrt x) (\<lambda>y. Inr (PyFloat y)))"

fun num_eq0 :: "num \<Rightarrow> bool" where
  "num_eq0 (PyInt n) = (n = 0)"
| "num_eq0 (PyFloat (Finite x)) = (x = 0)"
| "num_eq0 (PyFloat f) = False"

fun num_gt0 :: "num \<Rightarrow> bool" where
  "num_gt0 (PyInt n) = (0 < n)"
| "num_gt0 (PyFloat (Finite x)) = (0 < x)"
| "num_gt0 (PyFloat PosInf) = True"
| "num_gt0 (PyFloat f) = False"

fun num_key :: "num \<Rightarrow> real" where
  "num_key (PyInt n) = of_int n"
| "num_key (PyFloat (Finite x)) = x"
| "num_key (PyFloat PosInf) = 2 ^ 1024"
| "num_key (PyFloat NegInf) = - (2 ^ 1024)"
| "num_key (PyFloat NaN) = 0"

subsection \<open>The similarity kernel on Python's numbers\<close>

text \<open>
  \<^verbatim>\<open>cosine_sim\<close> again, line by line. The order in which Python iterates the set
  \<^verbatim>\<open>set(a.keys()) | set(b.keys())\<close> is not fixed by the source and the sums of doubles
  depend on it, so the list of keys in iteration order is the parameter \<open>ks\<close>; the
  statements hold for every \<open>ks\<close>.
\<close>

definition cosine_step ::
  "('k, num) dict \<Rightarrow> ('k, num) dict \<Rightarrow> 'k \<Rightarrow> num \<times> num \<times> num \<Rightarrow> py_error + num \<times> num \<times> num"
where
  "cosine_step a b k acc =
     (case acc of (dot, na, nb) \<Rightarrow>
        let va = dict_get a k (PyInt 0); vb = dict_get b k (PyInt 0) in
        py_then (num_mul va vb) (\<lambda>p. py_then (num_add dot p) (\<lambda>dot'.
        py_then (num_mul va va) (\<lambda>pa. py_then (num_add na pa) (\<lambda>na'.
        py_then (num_mul vb vb) (\<lambda>pb. py_then (num_add nb pb) (\<lambda>nb'.
        Inr (dot', na', nb'))))))))"

fun cosine_loop_f64 ::
  "'k list \<Rightarrow> ('k, num) dict \<Rightarrow> ('k, num) dict \<Rightarrow> num \<times> num \<times> num
     \<Rightarrow> py_error + num \<times> num \<times> num"
where
  "cosine_loop_f64 [] a b acc = Inr acc"
| "cosine_loop_f64 (k # ks) a b acc =
     (case cosine_step a b k acc of
        Inl e \<Rightarrow> Inl e
      | Inr acc' \<Rightarrow> cosine_loop_f64 ks a b acc')"

definition cosine_sim_f64 :: "'k list \<Rightarrow> ('k, num) dict \<Rightarrow> ('k, num) dict \<Rightarrow> py_error + num" where
  "cosine_sim_f64 ks a b =
     py_then (cosine_loop_f64 ks a b (PyInt 0, PyInt 0, PyInt 0)) (\<lambda>(dot, na, nb).
       if num_eq0 na \<or> num_eq0 nb then Inr (PyInt 0)
       else py_then (math_sqrt na) (\<lambda>sa. py_then (math_sqrt nb) (\<lambda>sb.
            py_then (num_mul sa sb) (\<lambda>d. num_div dot d))))"

subsection \<open>The collaborative predictor on Python's numbers\<close>

text \<open>
  \<^verbatim>\<open>predict_cf\<close> again, line by line. The iteration order of the kernel's key set is given
  by the parameter \<open>ord\<close>, a function of the two vectors; \<open>key_order ord\<close> says that it
  lists the keys of the two vectors, each once. \<open>cosine_keys_f64\<close> is one such order.
  The sort compares the similarities as Python compares numbers; a \<^verbatim>\<open>nan\<close> has no place
  in that order (the key \<open>num_key\<close> gives it the place of 0), and the statements
  below are made where no similarity is \<^verbatim>\<open>nan\<close>.
\<close>

record py_peer =
  py_userId :: string
  py_ratings :: "(int, num) dict"

definition COMMUNITY_f64 :: "py_peer list" where
  "COMMUNITY_f64 =
     [\<lparr>py_userId = ''u_alex'',
       py_ratings = [(1, PyInt 5), (2, PyInt 5), (3, PyInt 5), (4, PyInt 5)]\<rparr>,
      \<lparr>py_userId = ''u_bianca'', py_ratings = [(5, PyInt 5), (3, PyInt 4)]\<rparr>]"

definition cosine_keys_f64 :: "('k, num) dict \<Rightarrow> ('k, num) dict \<Rightarrow> 'k list" where
  "cosine_keys_f64 a b = remdups (dict_keys a @ dict_keys b)"

fun cf_sims_f64 ::
  "((int, num) dict \<Rightarrow> (int, num) dict \<Rightarrow> int list) \<Rightarrow> (int, num) dict \<Rightarrow> py_peer list
     \<Rightarrow> py_error + (string \<times> num \<times> (int, num) dict) list"
where
  "cf_sims_f64 ord ratings [] = Inr []"
| "cf_sims_f64 ord ratings (u # us) =
     (case cosine_sim_f64 (ord ratings (py_ratings u)) ratings (py_ratings u) of
        Inl e \<Rightarrow> Inl e
      | Inr sim \<Rightarrow>
          (case cf_sims_f64 ord ratings us of
             Inl e \<Rightarrow> Inl e
           | Inr sims \<Rightarrow> Inr ((py_userId u, sim, py_ratings u) # sims)))"

definition cf_neighbors_f64 ::
  "(string \<times> num \<times> (int, num) dict) list \<Rightarrow> nat \<Rightarrow> (string \<times> num \<times> (int, num) dict) list"
where
  "cf_neighbors_f64 sims k =
     take k (filter (\<lambda>s. num_gt0 (fst (snd s))) (sort_key (\<lambda>s. - num_key (fst (snd s))) sims))"

definition cf_step_f64 :: "num \<Rightarrow> num \<Rightarrow> num \<times> num \<Rightarrow> py_error + num \<times> num" where
  "cf_step_f64 sim rm acc =
     (case acc of (num, den) \<Rightarrow>
        py_then (num_mul sim rm) (\<lambda>p. py_then (num_add num p) (\<lambda>num'.
        py_then (num_add den (num_abs sim)) (\<lambda>den'. Inr (num', den')))))"

fun cf_accum_f64 ::
  "(string \<times> num \<times> (int, num) dict) list \<Rightarrow> int \<Rightarrow> num \<times> num \<Rightarrow> py_error + num \<times> num"
where
  "cf_accum_f64 [] m acc = Inr acc"
| "cf_accum_f64 ((uid, sim, r) # neighbors) m acc =
     (if dict_contains r m
      then (case cf_step_f64 sim (dict_get r m (PyInt 0)) acc of
              Inl e \<Rightarrow> Inl e
            | Inr acc' \<Rightarrow> cf_accum_f64 neighbors m acc')
      else cf_accum_f64 neighbors m acc)"

fun cf_loop_f64 ::
  "int list \<Rightarrow> (int, num) dict \<Rightarrow> (string \<times> num \<times> (int, num) dict) list
     \<Rightarrow> (int, num) dict \<Rightarrow> py_error + (int, num) dict"
where
  "cf_loop_f64 [] ratings neighbors pred = Inr pred"
| "cf_loop_f64 (m # ms) ratings neighbors pred =
     (if dict_contains ratings m then cf_loop_f64 ms ratings neighbors pred
      else
        (case cf_accum_f64 neighbors m (PyInt 0, PyInt 0) of
           Inl e \<Rightarrow> Inl e
         | Inr (num, den) \<Rightarrow>
             if num_gt0 den
             then (case num_div num den of
                     Inl e \<Rightarrow> Inl e
                   | Inr q \<Rightarrow> cf_loop_f64 ms ratings neighbors (dict_set m q pred))
             else cf_loop_f64 ms ratings neighbors pred))"

definition predict_cf_f64 ::
  "((int, num) dict \<Rightarrow> (int, num) dict \<Rightarrow> int list) \<Rightarrow> (int, num) dict \<Rightarrow> py_peer list \<Rightarrow> nat
     \<Rightarrow> py_error + (int, num) dict"
where
  "predict_cf_f64 ord ratings community k =
     (case cf_sims_f64 ord ratings community of
        Inl e \<Rightarrow> Inl e
      | Inr sims \<Rightarrow> cf_loop_f64 movie_ids ratings (cf_neighbors_f64 sims k) [])"

subsection \<open>Quantities the statements below refer to\<close>

definition cosine_dot :: "('k, real) dict \<Rightarrow> ('k, real) dict \<Rightarrow> real" where
  \<comment> \<open>the dot product over the union of the keys, an absent key weighing 0\<close>
  "cosine_dot a b = (\<Sum>k\<leftarrow>cosine_keys a b. dict_get a k 0 * dict_get b k 0)"

definition cosine_sq :: "'k list \<Rightarrow> ('k, real) dict \<Rightarrow> real" where
  \<comment> \<open>the squared L2 norm of a vector over the keys \<open>ks\<close>\<close>
  "cosine_sq ks a = (\<Sum>k\<leftarrow>ks. (dict_get a k 0)\<^sup>2)"

definition cosine_val :: "('k, real) dict \<Rightarrow> ('k, real) dict \<Rightarrow> real" where
  \<comment> \<open>the number \<open>cosine_sim\<close> returns\<close>
  "cosine_val a b = (case cosine_sim a b of Inl e \<Rightarrow> 0 | Inr r \<Rightarrow> r)"

definition boost_of :: "string \<Rightarrow> int \<Rightarrow> real" where
  \<comment> \<open>the boost of a catalog item under the lowercased query \<open>q\<close>\<close>
  "boost_of q mid =
     (case find_movie mid of Inl e \<Rightarrow> 0 | Inr m \<Rightarrow> if py_in q (haystack m) then 2 else 0)"

definition cf_raters ::
  "(string \<times> real \<times> (int, real) dict) list \<Rightarrow> int \<Rightarrow> (string \<times> real \<times> (int, real) dict) list"
where
  \<comment> \<open>the neighbors who rated the item \<open>m\<close>\<close>
  "cf_raters neighbors m = filter (\<lambda>n. dict_contains (snd (snd n)) m) neighbors"

definition cf_num :: "(string \<times> real \<times> (int, real) dict) list \<Rightarrow> int \<Rightarrow> real" where
  \<comment> \<open>the sum of \<open>similarity * neighbor_rating\<close> over the neighbors who rated \<open>m\<close>\<close>
  "cf_num neighbors m = (\<Sum>n\<leftarrow>cf_raters neighbors m. fst (snd n) * dict_get (snd (snd n)) m 0)"

definition cf_den :: "(string \<times> real \<times> (int, real) dict) list \<Rightarrow> int \<Rightarrow> real" where
  \<comment> \<open>the sum of \<open>|similarity|\<close> over the neighbors who rated \<open>m\<close>\<close>
  "cf_den neighbors m = (\<Sum>n\<leftarrow>cf_raters neighbors m. \<bar>fst (snd n)\<bar>)"

definition df_count :: "movie list \<Rightarrow> string \<Rightarrow> nat" where
  \<comment> \<open>the document frequency of a term: the number of items whose token set has it\<close>
  "df_count movies t = length (filter (\<lambda>m. t \<in> set (tokens_of m)) movies)"

definition liked_sum :: "(int, (string, real) dict) dict \<Rightarrow> (int, real) dict \<Rightarrow> string \<Rightarrow> real" where
  \<comment> \<open>the term-wise sum of the liked items' vectors, at the term \<open>t\<close>\<close>
  "liked_sum tfidf_vectors ratings t =
     (\<Sum>mid\<leftarrow>liked_of ratings. dict_get (dict_get tfidf_vectors mid []) t 0)"

definition liked_terms :: "(int, (string, real) dict) dict \<Rightarrow> (int, real) dict \<Rightarrow> string set" where
  \<comment> \<open>the terms of the liked items' vectors\<close>
  "liked_terms tfidf_vectors ratings =
     (\<Union>mid\<in>set (liked_of ratings). set (dict_keys (dict_get tfidf_vectors mid [])))"

definition liked_norm :: "(int, (string, real) dict) dict \<Rightarrow> (int, real) dict \<Rightarrow> real" where
  \<comment> \<open>the Euclidean norm of that sum, a zero norm counting as 1\<close>
  "liked_norm tfidf_vectors ratings =
     (let n = sqrt (\<Sum>t\<in>liked_terms tfidf_vectors ratings. (liked_sum tfidf_vectors ratings t)\<^sup>2)
      in if n = 0 then 1 else n)"

subsection \<open>Quantities of the statements on Python's numbers\<close>

fun num_nonneg :: "num \<Rightarrow> bool" where
  "num_nonneg (PyInt n) = (0 \<le> n)"
| "num_nonneg (PyFloat (Finite x)) = (0 \<le> x)"
| "num_nonneg (PyFloat PosInf) = True"
| "num_nonneg (PyFloat f) = False"

fun num_nan :: "num \<Rightarrow> bool" where
  "num_nan (PyFloat NaN) = True"
| "num_nan v = False"

fun is_double :: "num \<Rightarrow> bool" where
  "is_double (PyFloat (Finite x)) = (f64_round x = x \<and> \<bar>x\<bar> < 2 ^ 1024)"
| "is_double v = True"

definition sq_acc :: "num \<Rightarrow> bool" where
  "sq_acc v = ((num_nonneg v \<or> num_nan v) \<and> is_double v)"

fun div_ok :: "f64 \<Rightarrow> bool" where
  "div_ok (Finite y) = (0 < y)"
| "div_ok PosInf = True"
| "div_ok NegInf = False"
| "div_ok NaN = True"

definition f64_least :: real where
  "f64_least = 1 / 2 ^ 1074"

definition f64_least_root :: real where
  "f64_least_root = 1 / 2 ^ 537"

fun root_ok :: "f64 \<Rightarrow> bool" where
  "root_ok (Finite y) = (f64_least_root \<le> y)"
| "root_ok PosInf = True"
| "root_ok NegInf = False"
| "root_ok NaN = True"

definition nonneg_or_nan :: "num \<Rightarrow> bool" where
  "nonneg_or_nan v = (num_nonneg v \<or> num_nan v)"

fun float_or_zero :: "num \<Rightarrow> bool" where
  "float_or_zero (PyInt n) = (n = 0)"
| "float_or_zero (PyFloat f) = True"

fun num_int :: "num \<Rightarrow> int" where
  "num_int (PyInt n) = n"
| "num_int (PyFloat f) = 0"

definition int_weights :: "('k, num) dict \<Rightarrow> bool" where
  "int_weights d = (\<forall>v\<in>snd ` set d. \<exists>n. v = PyInt n)"

definition int_get :: "('k, num) dict \<Rightarrow> 'k \<Rightarrow> int" where
  "int_get d k = num_int (dict_get d k (PyInt 0))"

definition int_dot :: "'k list \<Rightarrow> ('k, num) dict \<Rightarrow> ('k, num) dict \<Rightarrow> int" where
  "int_dot ks a b = (\<Sum>k\<leftarrow>ks. int_get a k * int_get b k)"

definition int_sq :: "'k list \<Rightarrow> ('k, num) dict \<Rightarrow> int" where
  "int_sq ks a = (\<Sum>k\<leftarrow>ks. int_get a k * int_get a k)"

definition f64_eps :: real where
  "f64_eps = 1 / 2 ^ 53"

definition cosine_bound :: real where
  "cosine_bound = 1 + 1 / 2 ^ 50"

definition int_quotient :: "int \<Rightarrow> int \<Rightarrow> int \<Rightarrow> f64" where
  "int_quotient D A B =
     f64_div (Finite (f64_round (of_int D)))
       (f64_of_real (f64_round (sqrt (f64_round (of_int A))) * f64_round (sqrt (f64_round (of_int B)))))"

definition key_order :: "(('k, num) dict \<Rightarrow> ('k, num) dict \<Rightarrow> 'k list) \<Rightarrow> bool" where
  "key_order ord =
     (\<forall>a b. distinct (ord a b) \<and> set (ord a b) = set (dict_keys a) \<union> set (dict_keys b))"

fun f64_of_num :: "num \<Rightarrow> f64" where
  "f64_of_num (PyInt n) = f64_of_real (of_int n)"
| "f64_of_num (PyFloat f) = f"

definition cf_raters_f64 ::
  "(string \<times> num \<times> (int, num) dict) list \<Rightarrow> int \<Rightarrow> (string \<times> num \<times> (int, num) dict) list"
where
  "cf_raters_f64 neighbors m = filter (\<lambda>n. dict_contains (snd (snd n)) m) neighbors"

definition f64_sum :: "f64 list \<Rightarrow> f64" where
  "f64_sum xs = foldl f64_add (Finite 0) xs"

definition cf_num_f64 :: "(string \<times> num \<times> (int, num) dict) list \<Rightarrow> int \<Rightarrow> f64" where
  "cf_num_f64 neighbors m =
     f64_sum (map (\<lambda>n. f64_mul (f64_of_num (fst (snd n)))
                            (f64_of_num (dict_get (snd (snd n)) m (PyInt 0))))
               (cf_raters_f64 neighbors m))"

definition cf_den_f64 :: "(string \<times> num \<times> (int, num) dict) list \<Rightarrow> int \<Rightarrow> f64" where
  "cf_den_f64 neighbors m =
     f64_sum (map (\<lambda>n. f64_abs (f64_of_num (fst (snd n)))) (cf_raters_f64 neighbors m))"

definition neighbor_ok :: "string \<times> num \<times> (int, num) dict \<Rightarrow> bool" where
  "neighbor_ok n =
     ((\<exists>s. fst (snd n) = PyFloat (Finite s) \<and> 0 < s \<and> f64_round s = s)
      \<and> (\<forall>m. dict_contains (snd (snd n)) m \<longrightarrow>
             (\<exists>f. to_f64 (dict_get (snd (snd n)) m (PyInt 0)) = Inr f)))"

definition pos_f64 :: "f64 \<Rightarrow> bool" where
  "pos_f64 f = (case f of Finite y \<Rightarrow> f64_least \<le> y | PosInf \<Rightarrow> True | _ \<Rightarrow> False)"

section \<open>Dictionaries\<close>

lemma dict_get_nonneg:
  assumes "\<forall>v\<in>snd ` set a. (0::real) \<le> v"
  shows "0 \<le> dict_get a k 0"
proof (cases "map_of a k")
  case None
  then show ?thesis by (simp add: dict_get_def)
next
  case (Some v)
  then have "(k, v) \<in> set a" by (rule map_of_SomeD)
  then have "snd (k, v) \<in> snd ` set a" by (rule imageI)
  with assms have "0 \<le> v" by auto
  with Some show ?thesis by (simp add: dict_get_def)
qed

lemma dict_get_zero:
  assumes "\<forall>v\<in>snd ` set a. v = (0::real)"
  shows "dict_get a k 0 = 0"
proof (cases "map_of a k")
  case None
  then show ?thesis by (simp add: dict_get_def)
next
  case (Some v)
  then have "(k, v) \<in> set a" by (rule map_of_SomeD)
  then have "snd (k, v) \<in> snd ` set a" by (rule imageI)
  with assms have "v = 0" by auto
  with Some show ?thesis by (simp add: dict_get_def)
qed

lemma dict_set_new: "k \<notin> fst ` set d \<Longrightarrow> dict_set k v d = d @ [(k, v)]"
  unfolding dict_set_def by (induction d) auto

lemma dict_keys_dict_set: "set (dict_keys (dict_set k v d)) = insert k (set (dict_keys d))"
  unfolding dict_set_def dict_keys_def by (induction d) auto

lemma is_dict_dict_set: "is_dict d \<Longrightarrow> is_dict (dict_set k v d)"
  unfolding is_dict_def dict_set_def dict_keys_def by (simp add: distinct_update)

lemma dict_get_in_keys: "dict_get d k (0::real) \<noteq> 0 \<Longrightarrow> k \<in> set (dict_keys d)"
proof -
  assume "dict_get d k (0::real) \<noteq> 0"
  then obtain v where "map_of d k = Some v"
    by (cases "map_of d k") (simp_all add: dict_get_def)
  then have "(k, v) \<in> set d" by (rule map_of_SomeD)
  then have "fst (k, v) \<in> fst ` set d" by (rule imageI)
  then show ?thesis by (simp add: dict_keys_def)
qed

lemma distinct_map_insort_key:
  "distinct (map g (insort_key f x xs)) = (g x \<notin> g ` set xs \<and> distinct (map g xs))"
  by (induction xs) (auto simp: set_insort_key)

lemma distinct_map_sort_key: "distinct (map g (sort_key f xs)) = distinct (map g xs)"
  by (induction xs) (simp_all add: distinct_map_insort_key)

lemma set_sorted_desc: "set (sorted_desc xs) = set xs"
  by (simp add: sorted_desc_def)

lemma dict_keys_sorted_desc: "set (dict_keys (sorted_desc xs)) = set (dict_keys xs)"
  by (simp add: dict_keys_def set_sorted_desc)

lemma is_dict_sorted_desc: "is_dict (sorted_desc xs) = is_dict xs"
  by (simp add: is_dict_def dict_keys_def sorted_desc_def distinct_map_sort_key)

lemma map_of_sorted_desc: "is_dict xs \<Longrightarrow> map_of (sorted_desc xs) = map_of xs"
proof -
  assume d: "is_dict xs"
  then have "distinct (map fst (sorted_desc xs))" "distinct (map fst xs)"
    using is_dict_sorted_desc [of xs] by (simp_all add: is_dict_def dict_keys_def)
  then show ?thesis
    using map_of_inject_set [of "sorted_desc xs" xs] by (simp add: set_sorted_desc)
qed

lemma descending_sorted_desc: "sorted_wrt (\<lambda>x y. snd y \<le> snd x) (sorted_desc xs)"
proof -
  have "sorted (map (\<lambda>x. - snd x) (sorted_desc xs))"
    unfolding sorted_desc_def by (rule sorted_sort_key)
  then show ?thesis by (simp add: sorted_map)
qed

lemma ties_sorted_desc: "filter (\<lambda>x. snd x = s) (sorted_desc xs) = filter (\<lambda>x. snd x = s) xs"
  using sort_key_stable [of "\<lambda>x. - snd x" "- s" xs] by (simp add: sorted_desc_def)

lemma distinct_movie_ids: "distinct movie_ids"
  by (simp add: movie_ids_def MOVIES_def)

lemma dict_get_dict_set:
  "dict_get (dict_set k v d) k' dflt = (if k' = k then v else dict_get d k' dflt)"
  by (simp add: dict_get_def dict_set_def update_conv')

lemma set_dict_set_subset: "set (dict_set k v d) \<subseteq> insert (k, v) (set d)"
  unfolding dict_set_def by (induction d) auto

lemma is_dict_Nil: "is_dict []"
  by (simp add: is_dict_def dict_keys_def)

lemma dict_keys_Nil: "dict_keys [] = []"
  by (simp add: dict_keys_def)

lemma dict_get_Nil: "dict_get [] k dflt = dflt"
  by (simp add: dict_get_def)

lemma in_dict_keys: "(k, v) \<in> set d \<Longrightarrow> k \<in> set (dict_keys d)"
  by (force simp: dict_keys_def)

lemma dict_keys_entry: "k \<in> set (dict_keys d) \<Longrightarrow> \<exists>v. (k, v) \<in> set d"
  by (auto simp: dict_keys_def)

lemma is_dict_lookup:
  assumes "is_dict d" "(k, v) \<in> set d"
  shows "dict_get d k dflt = v"
  using assms by (simp add: is_dict_def dict_keys_def dict_get_def)

lemma dict_get_absent: "k \<notin> set (dict_keys d) \<Longrightarrow> dict_get d k dflt = dflt"
  by (simp add: dict_get_def dict_keys_def map_of_eq_None_iff [THEN iffD2])

lemma is_dict_Cons: "is_dict ((k, v) # d) \<longleftrightarrow> k \<notin> set (dict_keys d) \<and> is_dict d"
  by (simp add: is_dict_def dict_keys_def)

lemma dict_get_Cons: "dict_get ((k, v) # d) k' dflt = (if k' = k then v else dict_get d k' dflt)"
  by (simp add: dict_get_def)

lemma is_dict_values:
  "is_dict d \<Longrightarrow> map snd d = map (\<lambda>k. dict_get d k dflt) (dict_keys d)"
proof (induction d)
  case Nil
  then show ?case by (simp add: dict_keys_def)
next
  case (Cons p d)
  obtain k v where p: "p = (k, v)" by (cases p)
  from Cons.prems have k: "k \<notin> set (dict_keys d)" and d: "is_dict d"
    by (simp_all add: p is_dict_Cons)
  have "map (\<lambda>k'. dict_get ((k, v) # d) k' dflt) (dict_keys d)
          = map (\<lambda>k'. dict_get d k' dflt) (dict_keys d)"
    using k by (intro map_cong) (auto simp: dict_get_Cons)
  with Cons.IH [OF d] show ?case by (simp add: p dict_keys_def dict_get_Cons)
qed

lemma is_dict_map_values: "is_dict (map (\<lambda>(k, v). (k, f v)) d) = is_dict d"
  by (simp add: is_dict_def dict_keys_def comp_def case_prod_unfold)

lemma dict_keys_map_values: "dict_keys (map (\<lambda>(k, v). (k, f v)) d) = dict_keys d"
  by (simp add: dict_keys_def comp_def case_prod_unfold)

lemma map_of_map_values:
  assumes "k \<in> set (dict_keys d)"
  shows "map_of (map (\<lambda>(k, v). (k, f v)) d) k = Some (f (dict_get d k dflt))"
proof -
  from dict_keys_entry [OF assms] obtain v where "(k, v) \<in> set d" ..
  then obtain v' where v': "map_of d k = Some v'"
    by (cases "map_of d k") (auto simp: map_of_eq_None_iff intro: rev_image_eqI)
  then show ?thesis by (simp add: map_of_map dict_get_def)
qed

section \<open>The similarity kernel\<close>

text \<open>
  The Cauchy-Schwarz inequality for sums over a list, by induction on the list: the step
  is the inequality \<open>2xyS \<le> x\<^sup>2B + y\<^sup>2A\<close>, which follows from \<open>S\<^sup>2 \<le> AB\<close>.
\<close>

lemma cs_step:
  fixes x y S A B :: real
  assumes A: "0 \<le> A" and B: "0 \<le> B" and IH: "S\<^sup>2 \<le> A * B"
  shows "(x * y + S)\<^sup>2 \<le> (x\<^sup>2 + A) * (y\<^sup>2 + B)"
proof -
  define p where "p = x\<^sup>2 * B"
  define q where "q = y\<^sup>2 * A"
  have p: "0 \<le> p" and q: "0 \<le> q" using A B by (simp_all add: p_def q_def)
  have "(x * y * S)\<^sup>2 = (x\<^sup>2 * y\<^sup>2) * S\<^sup>2" by (simp add: power_mult_distrib)
  also have "\<dots> \<le> (x\<^sup>2 * y\<^sup>2) * (A * B)"
    by (rule mult_left_mono [OF IH]) simp
  also have "\<dots> = p * q" by (simp add: p_def q_def)
  finally have sq: "(x * y * S)\<^sup>2 \<le> p * q" .
  have "(2 * (x * y * S))\<^sup>2 = 4 * (x * y * S)\<^sup>2" by (simp add: power_mult_distrib)
  also have "\<dots> \<le> 4 * (p * q)" using sq by simp
  also have "\<dots> \<le> (p + q)\<^sup>2"
  proof -
    have "0 \<le> (p - q)\<^sup>2" by simp
    then show ?thesis by (simp add: power2_eq_square algebra_simps)
  qed
  finally have le2: "(2 * (x * y * S))\<^sup>2 \<le> (p + q)\<^sup>2" .
  have pq: "0 \<le> p + q" using p q by simp
  have "2 * (x * y * S) \<le> p + q"
    by (rule power2_le_imp_le [OF le2 pq])
  moreover have "(x * y + S)\<^sup>2 = x\<^sup>2 * y\<^sup>2 + 2 * (x * y * S) + S\<^sup>2"
    by (simp add: power2_sum power_mult_distrib)
  moreover have "(x\<^sup>2 + A) * (y\<^sup>2 + B) = x\<^sup>2 * y\<^sup>2 + (p + q) + A * B"
    by (simp add: p_def q_def algebra_simps)
  ultimately show ?thesis using IH by linarith
qed

lemma cauchy_schwarz_list:
  fixes f g :: "'k \<Rightarrow> real"
  shows "(\<Sum>k\<leftarrow>ks. f k * g k)\<^sup>2 \<le> (\<Sum>k\<leftarrow>ks. (f k)\<^sup>2) * (\<Sum>k\<leftarrow>ks. (g k)\<^sup>2)"
proof (induction ks)
  case Nil
  then show ?case by simp
next
  case (Cons k ks)
  have A: "0 \<le> (\<Sum>k\<leftarrow>ks. (f k)\<^sup>2)" by (rule sum_list_nonneg) auto
  have B: "0 \<le> (\<Sum>k\<leftarrow>ks. (g k)\<^sup>2)" by (rule sum_list_nonneg) auto
  show ?case using cs_step [OF A B Cons.IH] by simp
qed

lemma cosine_loop_sums:
  "cosine_loop ks a b (d, x, y) =
     (d + (\<Sum>k\<leftarrow>ks. dict_get a k 0 * dict_get b k 0),
      x + (\<Sum>k\<leftarrow>ks. (dict_get a k 0)\<^sup>2),
      y + (\<Sum>k\<leftarrow>ks. (dict_get b k 0)\<^sup>2))"
  by (induction ks arbitrary: d x y) (simp_all add: Let_def power2_eq_square add.assoc)

lemma cosine_loop_eq:
  "cosine_loop (cosine_keys a b) a b (0, 0, 0) =
     (cosine_dot a b, cosine_sq (cosine_keys a b) a, cosine_sq (cosine_keys a b) b)"
  by (simp add: cosine_loop_sums cosine_dot_def cosine_sq_def)

lemma cosine_sq_nonneg: "0 \<le> cosine_sq ks a"
  unfolding cosine_sq_def by (rule sum_list_nonneg) auto

lemma cosine_sim_unfold:
  "cosine_sim a b =
     (let na = cosine_sq (cosine_keys a b) a; nb = cosine_sq (cosine_keys a b) b in
      if na = 0 \<or> nb = 0 then Inr 0 else Inr (cosine_dot a b / (sqrt na * sqrt nb)))"
proof -
  have na: "0 \<le> cosine_sq (cosine_keys a b) a" and nb: "0 \<le> cosine_sq (cosine_keys a b) b"
    by (rule cosine_sq_nonneg)+
  show ?thesis
    using na nb
    by (simp add: cosine_sim_def cosine_loop_eq py_sqrt_def py_div_def Let_def not_less)
qed

lemma cosine_sq_zero:
  assumes "\<forall>v\<in>snd ` set a. v = (0::real)"
  shows "cosine_sq ks a = 0"
  by (induction ks) (simp_all add: cosine_sq_def dict_get_zero [OF assms])

lemma cosine_quotient_le_1:
  fixes d na nb :: real
  assumes "d\<^sup>2 \<le> na * nb" "0 < na" "0 < nb"
  shows "d / (sqrt na * sqrt nb) \<le> 1"
proof -
  have pos: "0 < sqrt na * sqrt nb" using assms by simp
  have sq: "d\<^sup>2 \<le> (sqrt na * sqrt nb)\<^sup>2"
    using assms by (simp add: power_mult_distrib)
  have nonneg: "0 \<le> sqrt na * sqrt nb" using pos by simp
  have "d \<le> sqrt na * sqrt nb"
    by (rule power2_le_imp_le [OF sq nonneg])
  then show ?thesis using pos by simp
qed

lemma cosine_sim_cases:
  fixes a b :: "('k, real) dict"
  defines "na \<equiv> cosine_sq (cosine_keys a b) a" and "nb \<equiv> cosine_sq (cosine_keys a b) b"
  shows "(na = 0 \<or> nb = 0) \<and> cosine_sim a b = Inr 0
       \<or> 0 < na \<and> 0 < nb \<and> 0 < sqrt na * sqrt nb
           \<and> cosine_sim a b = Inr (cosine_dot a b / (sqrt na * sqrt nb))
           \<and> cosine_dot a b / (sqrt na * sqrt nb) \<le> 1"
proof (cases "na = 0 \<or> nb = 0")
  case True
  then show ?thesis by (simp add: cosine_sim_unfold na_def nb_def)
next
  case False
  have "0 \<le> na" "0 \<le> nb" by (simp_all add: na_def nb_def cosine_sq_nonneg)
  with False have pos: "0 < na" "0 < nb" by simp_all
  have cs: "(cosine_dot a b)\<^sup>2 \<le> na * nb"
    unfolding cosine_dot_def na_def nb_def cosine_sq_def by (rule cauchy_schwarz_list)
  have "cosine_sim a b = Inr (cosine_dot a b / (sqrt na * sqrt nb))"
    using False by (simp add: cosine_sim_unfold na_def nb_def)
  moreover have "cosine_dot a b / (sqrt na * sqrt nb) \<le> 1"
    by (rule cosine_quotient_le_1 [OF cs pos])
  ultimately show ?thesis using pos by simp
qed

lemma cosine_sim_total: "\<exists>r. cosine_sim a b = Inr r"
  using cosine_sim_cases [of a b] by auto

lemma cosine_sim_val: "cosine_sim a b = Inr (cosine_val a b)"
  using cosine_sim_total [of a b] by (auto simp: cosine_val_def)

section \<open>Rounding to the nearest double\<close>

lemma rhe_lower: "y - 1 / 2 \<le> of_int (round_half_even y)"
  unfolding round_half_even_def Let_def by (auto; linarith)

lemma rhe_upper: "of_int (round_half_even y) \<le> y + 1 / 2"
  unfolding round_half_even_def Let_def by (auto; linarith)

lemma rhe_of_int: "round_half_even (of_int k) = k"
  by (simp add: round_half_even_def)

lemma rhe_floor_le: "\<lfloor>y\<rfloor> \<le> round_half_even y"
  by (simp add: round_half_even_def Let_def)

lemma rhe_le_floor: "round_half_even y \<le> \<lfloor>y\<rfloor> + 1"
  by (simp add: round_half_even_def Let_def)

lemma rhe_mono:
  assumes "x \<le> y"
  shows "round_half_even x \<le> round_half_even y"
proof (cases "\<lfloor>x\<rfloor> = \<lfloor>y\<rfloor>")
  case True
  with assms show ?thesis by (simp add: round_half_even_def Let_def)
next
  case False
  with floor_mono [OF assms] have "\<lfloor>x\<rfloor> + 1 \<le> \<lfloor>y\<rfloor>" by simp
  with rhe_le_floor [of x] rhe_floor_le [of y] show ?thesis by linarith
qed

lemma rhe_eq:
  assumes "\<bar>y - of_int n\<bar> < 1 / 2"
  shows "round_half_even y = n"
proof (cases "of_int n \<le> y")
  case True
  with assms have "\<lfloor>y\<rfloor> = n" by (intro floor_unique) auto
  with assms True show ?thesis by (simp add: round_half_even_def)
next
  case False
  with assms have f: "\<lfloor>y\<rfloor> = n - 1" by (intro floor_unique) auto
  from assms False have "1 / 2 < y - of_int (n - 1)" by auto
  with f show ?thesis by (simp add: round_half_even_def Let_def)
qed

lemma rhe_tie: "round_half_even (of_int f + 1 / 2) = (if even f then f else f + 1)"
proof -
  have "\<lfloor>of_int f + (1 / 2 :: real)\<rfloor> = f" by (intro floor_unique) auto
  then show ?thesis by (simp add: round_half_even_def Let_def)
qed

lemma f64_exp_ge: "- 1022 \<le> f64_exp x"
  by (simp add: f64_exp_def)

lemma f64_exp_upper:
  assumes "x \<noteq> 0"
  shows "\<bar>x\<bar> < 2 powr (of_int (f64_exp x) + 1)"
proof -
  from assms have pos: "0 < \<bar>x\<bar>" by simp
  have "log 2 \<bar>x\<bar> < of_int \<lfloor>log 2 \<bar>x\<bar>\<rfloor> + 1" by linarith
  also have "\<dots> \<le> of_int (f64_exp x) + 1" by (simp add: f64_exp_def)
  finally have "log 2 \<bar>x\<bar> < of_int (f64_exp x) + 1" .
  with pos show ?thesis by (simp add: log_less_iff)
qed

lemma f64_exp_eq:
  assumes "2 powr of_int e \<le> \<bar>x\<bar>" "\<bar>x\<bar> < 2 powr (of_int e + 1)" "- 1022 \<le> e"
  shows "f64_exp x = e"
proof -
  have "(0::real) < 2 powr of_int e" by simp
  with assms(1) have pos: "0 < \<bar>x\<bar>" by linarith
  then have "\<lfloor>log 2 \<bar>x\<bar>\<rfloor> = e" using assms(1,2) by (simp add: floor_log_eq_powr_iff)
  with assms(3) show ?thesis by (simp add: f64_exp_def)
qed

lemma f64_exp_subnormal:
  assumes "x \<noteq> 0" "\<bar>x\<bar> < 2 powr (- 1021)"
  shows "f64_exp x = - 1022"
proof -
  from assms have pos: "0 < \<bar>x\<bar>" by simp
  with assms(2) have "log 2 \<bar>x\<bar> < - 1021" by (simp add: log_less_iff)
  then have "\<lfloor>log 2 \<bar>x\<bar>\<rfloor> \<le> - 1022" by linarith
  then show ?thesis by (simp add: f64_exp_def)
qed

lemma f64_exp_normal:
  assumes "2 powr (- 1022) \<le> \<bar>x\<bar>"
  shows "2 powr of_int (f64_exp x) \<le> \<bar>x\<bar>"
proof -
  have "(0::real) < 2 powr (- 1022)" by simp
  with assms have pos: "0 < \<bar>x\<bar>" by linarith
  with assms have "- 1022 \<le> log 2 \<bar>x\<bar>" by (simp add: le_log_iff)
  then have "- 1022 \<le> \<lfloor>log 2 \<bar>x\<bar>\<rfloor>" by linarith
  then have e: "f64_exp x = \<lfloor>log 2 \<bar>x\<bar>\<rfloor>" by (simp add: f64_exp_def)
  from pos floor_log_eq_powr_iff [of "\<bar>x\<bar>" 2 "\<lfloor>log 2 \<bar>x\<bar>\<rfloor>"]
  show ?thesis unfolding e by simp
qed

lemma f64_round_0: "f64_round 0 = 0"
  by (simp add: f64_round_def)

lemma f64_round_form:
  "x \<noteq> 0 \<Longrightarrow>
   f64_round x = 2 powr (of_int (f64_exp x) - 52)
                   * of_int (round_half_even (x / 2 powr (of_int (f64_exp x) - 52)))"
  by (simp add: f64_round_def Let_def)

lemma f64_round_eqI:
  assumes "f64_exp x = e" "\<bar>x / 2 powr (of_int e - 52) - of_int n\<bar> < 1 / 2"
  shows "f64_round x = of_int n * 2 powr (of_int e - 52)"
proof (cases "x = 0")
  case True
  with assms(2) have "\<bar>of_int n :: real\<bar> < 1 / 2" by simp
  then have "n = 0" by linarith
  with True show ?thesis by (simp add: f64_round_0)
next
  case False
  from rhe_eq [OF assms(2)] f64_round_form [OF False] show ?thesis by (simp add: assms(1))
qed

lemma f64_round_abs_err: "\<bar>f64_round x - x\<bar> \<le> 2 powr (of_int (f64_exp x) - 53)"
proof (cases "x = 0")
  case True
  then show ?thesis by (simp add: f64_round_0)
next
  case False
  define u :: real where "u = 2 powr (of_int (f64_exp x) - 52)"
  define k where "k = round_half_even (x / u)"
  have u: "0 < u" by (simp add: u_def)
  have fx: "f64_round x = u * of_int k" using f64_round_form [OF False] by (simp add: u_def k_def)
  from rhe_lower [of "x / u"] rhe_upper [of "x / u"]
  have "\<bar>of_int k - x / u\<bar> \<le> 1 / 2" unfolding k_def by linarith
  then have "u * \<bar>of_int k - x / u\<bar> \<le> u * (1 / 2)" using u by (intro mult_left_mono) auto
  moreover have "u * \<bar>of_int k - x / u\<bar> = \<bar>u * of_int k - x\<bar>"
  proof -
    have "u * (of_int k - x / u) = u * of_int k - x" using u by (simp add: field_simps)
    then have "\<bar>u * of_int k - x\<bar> = \<bar>u\<bar> * \<bar>of_int k - x / u\<bar>"
      by (simp only: abs_mult [symmetric])
    with u show ?thesis by simp
  qed
  moreover have "u * (1 / 2) = 2 powr (of_int (f64_exp x) - 53)"
    by (simp add: u_def powr_diff)
  ultimately show ?thesis by (simp add: fx)
qed

lemma f64_round_rel:
  assumes "2 powr (- 1022) \<le> \<bar>x\<bar>"
  shows "\<bar>f64_round x - x\<bar> \<le> \<bar>x\<bar> / 2 ^ 53"
proof -
  have "2 powr (of_int (f64_exp x) - 53) = 2 powr of_int (f64_exp x) / (2 ^ 53 :: real)"
    by (simp add: powr_diff)
  also have "\<dots> \<le> \<bar>x\<bar> / 2 ^ 53"
    using f64_exp_normal [OF assms] by (simp add: divide_right_mono)
  finally show ?thesis using f64_round_abs_err [of x] by linarith
qed

lemma f64_round_int_quot:
  assumes "x \<noteq> 0" "x / 2 powr (of_int (f64_exp x) - 52) = of_int k"
  shows "f64_round x = x"
proof -
  define u :: real where "u = 2 powr (of_int (f64_exp x) - 52)"
  have u: "0 < u" by (simp add: u_def)
  from assms(2) have xu: "x / u = of_int k" by (simp add: u_def)
  then have "x = u * of_int k" using u by (simp add: field_simps)
  moreover have "f64_round x = u * of_int (round_half_even (x / u))"
    using f64_round_form [OF assms(1)] by (simp add: u_def)
  ultimately show ?thesis by (simp add: xu rhe_of_int)
qed

lemma f64_round_exact:
  assumes m: "\<bar>m\<bar> \<le> 2 ^ 53" and q: "- 1074 \<le> q"
  shows "f64_round (of_int m * 2 powr of_int q) = of_int m * 2 powr of_int q"
proof (cases "m = 0")
  case True
  then show ?thesis by (simp add: f64_round_0)
next
  case False
  define x :: real where "x = of_int m * 2 powr of_int q"
  define e where "e = f64_exp x"
  have x0: "x \<noteq> 0" using False by (simp add: x_def)
  have absx: "\<bar>x\<bar> = of_int \<bar>m\<bar> * 2 powr of_int q" by (simp add: x_def abs_mult)
  have "of_int \<bar>m\<bar> \<le> (2 ^ 53 :: real)" using m by (metis of_int_le_iff of_int_numeral of_int_power)
  then have "\<bar>x\<bar> \<le> 2 ^ 53 * 2 powr of_int q" unfolding absx by (intro mult_right_mono) auto
  also have "\<dots> = 2 powr (of_int q + 53)" by (simp add: powr_add)
  finally have ub: "\<bar>x\<bar> \<le> 2 powr (of_int q + 53)" .
  have "log 2 \<bar>x\<bar> \<le> of_int q + 53" using x0 ub by (simp add: log_le_iff)
  then have "\<lfloor>log 2 \<bar>x\<bar>\<rfloor> \<le> q + 53" by (simp add: floor_le_iff)
  with q have e_le: "e \<le> q + 53" by (simp add: e_def f64_exp_def)
  have quot: "x / 2 powr (of_int e - 52) = of_int m * 2 powr (of_int (q - e + 52))"
    by (simp add: x_def powr_diff powr_add field_simps)
  have "\<exists>k. x / 2 powr (of_int e - 52) = of_int k"
  proof (cases "e \<le> q + 52")
    case True
    then have t: "0 \<le> q - e + 52" by simp
    then have "(2::real) powr of_int (q - e + 52) = 2 ^ nat (q - e + 52)"
      using powr_real_of_int [of "2::real" "q - e + 52"] by simp
    then have "x / 2 powr (of_int e - 52) = of_int (m * 2 ^ nat (q - e + 52))"
      unfolding quot by simp
    then show ?thesis ..
  next
    case F: False
    with e_le have e: "e = q + 53" by simp
    with q have "e > - 1022" by simp
    then have "e = \<lfloor>log 2 \<bar>x\<bar>\<rfloor>" by (simp add: e_def f64_exp_def max_def split: if_splits)
    with x0 floor_log_eq_powr_iff [of "\<bar>x\<bar>" 2 e] have "2 powr of_int e \<le> \<bar>x\<bar>" by simp
    then have "2 powr (of_int q + 53) \<le> (of_int \<bar>m\<bar> :: real) * 2 powr of_int q"
      unfolding absx e by (simp add: add.commute)
    then have "2 ^ 53 * 2 powr of_int q \<le> (of_int \<bar>m\<bar> :: real) * 2 powr of_int q"
      by (simp add: powr_add)
    then have "(2 ^ 53 :: real) \<le> of_int \<bar>m\<bar>" by simp
    then have "2 ^ 53 \<le> \<bar>m\<bar>" by (metis of_int_le_iff of_int_numeral of_int_power)
    with m have am: "\<bar>m\<bar> = 2 ^ 53" by simp
    have "(2::real) powr of_int (q - e + 52) = 1 / 2" unfolding e by (simp add: powr_minus field_simps)
    then have "x / 2 powr (of_int e - 52) = of_int m / 2" unfolding quot by simp
    moreover have "of_int m / 2 = (of_int (m div 2) :: real)"
    proof -
      from am have "even m" by (metis even_abs_add_iff even_add even_numeral even_power zero_less_numeral)
      then show ?thesis by (simp add: real_of_int_div)
    qed
    ultimately show ?thesis by auto
  qed
  then obtain k where "x / 2 powr (of_int (f64_exp x) - 52) = of_int k" unfolding e_def ..
  from f64_round_int_quot [OF x0 this] show ?thesis by (simp add: x_def)
qed

lemma f64_round_quot_bound:
  assumes "x \<noteq> 0"
  shows "- (2 ^ 53) < x / 2 powr (of_int (f64_exp x) - 52)"
    and "x / 2 powr (of_int (f64_exp x) - 52) < 2 ^ 53"
proof -
  define u :: real where "u = 2 powr (of_int (f64_exp x) - 52)"
  have u: "0 < u" by (simp add: u_def)
  have "\<bar>x\<bar> < 2 powr (of_int (f64_exp x) + 1)" by (rule f64_exp_upper [OF assms])
  also have "\<dots> = 2 ^ 53 * u" by (simp add: u_def powr_diff powr_add)
  finally have "\<bar>x\<bar> / u < 2 ^ 53" using u by (simp add: field_simps)
  then have lt: "\<bar>x\<bar> / u < 2 ^ 53" .
  have au: "\<bar>u\<bar> = u" using u by simp
  have "\<bar>x / u\<bar> = \<bar>x\<bar> / u" by (simp only: abs_divide au)
  with lt have "\<bar>x / u\<bar> < 2 ^ 53" by (simp only:)
  then have "x / u < 2 ^ 53 \<and> - (x / u) < 2 ^ 53" by (simp only: abs_less_iff)
  then show "- (2 ^ 53) < x / 2 powr (of_int (f64_exp x) - 52)"
    and "x / 2 powr (of_int (f64_exp x) - 52) < 2 ^ 53"
    unfolding u_def by linarith+
qed

lemma f64_round_repr:
  assumes "x \<noteq> 0"
  shows "\<exists>k. \<bar>k\<bar> \<le> 2 ^ 53 \<and> f64_round x = of_int k * 2 powr of_int (f64_exp x - 52)"
proof -
  define y where "y = x / 2 powr (of_int (f64_exp x) - 52)"
  define k where "k = round_half_even y"
  from f64_round_quot_bound [OF assms] have y: "- (2 ^ 53) < y" "y < 2 ^ 53"
    unfolding y_def by blast+
  have "round_half_even y \<le> round_half_even (of_int (2 ^ 53))"
    by (rule rhe_mono) (use y in simp)
  moreover have "round_half_even (of_int (- (2 ^ 53))) \<le> round_half_even y"
    by (rule rhe_mono) (use y in simp)
  ultimately have "\<bar>k\<bar> \<le> 2 ^ 53" unfolding k_def rhe_of_int by simp
  moreover have "f64_round x = of_int k * 2 powr of_int (f64_exp x - 52)"
    using f64_round_form [OF assms] by (simp add: k_def y_def)
  ultimately show ?thesis by blast
qed

lemma f64_round_idem: "f64_round (f64_round x) = f64_round x"
proof (cases "x = 0")
  case True
  then show ?thesis by (simp add: f64_round_0)
next
  case False
  from f64_round_repr [OF False] obtain k where k: "\<bar>k\<bar> \<le> 2 ^ 53"
    and r: "f64_round x = of_int k * 2 powr of_int (f64_exp x - 52)" by blast
  have "- 1074 \<le> f64_exp x - 52" using f64_exp_ge [of x] by simp
  from f64_round_exact [OF k this] show ?thesis by (simp add: r)
qed

lemma f64_round_nonneg:
  assumes "0 \<le> x"
  shows "0 \<le> f64_round x"
proof (cases "x = 0")
  case True
  then show ?thesis by (simp add: f64_round_0)
next
  case False
  define u :: real where "u = 2 powr (of_int (f64_exp x) - 52)"
  have "0 \<le> x / u" using assms by (simp add: u_def)
  then have "0 \<le> \<lfloor>x / u\<rfloor>" by simp
  with rhe_floor_le [of "x / u"] have "0 \<le> round_half_even (x / u)" by linarith
  then show ?thesis using f64_round_form [OF False] by (simp add: u_def)
qed

lemma f64_exp_mono:
  assumes "0 < x" "x \<le> y"
  shows "f64_exp x \<le> f64_exp y"
proof -
  from assms have "log 2 x \<le> log 2 y" by simp
  then have "\<lfloor>log 2 x\<rfloor> \<le> \<lfloor>log 2 y\<rfloor>" by (rule floor_mono)
  with assms show ?thesis by (simp add: f64_exp_def)
qed

lemma f64_round_mono:
  assumes "0 \<le> x" "x \<le> y"
  shows "f64_round x \<le> f64_round y"
proof (cases "x = 0")
  case True
  with assms f64_round_nonneg [of y] show ?thesis by (simp add: f64_round_0)
next
  case False
  with assms have x: "0 < x" and y: "0 < y" by simp_all
  define ex where "ex = f64_exp x"
  define ey where "ey = f64_exp y"
  have le: "ex \<le> ey" unfolding ex_def ey_def by (rule f64_exp_mono [OF x assms(2)])
  have fx: "f64_round x = 2 powr (of_int ex - 52) * of_int (round_half_even (x / 2 powr (of_int ex - 52)))"
    using f64_round_form [of x] x by (simp add: ex_def)
  have fy: "f64_round y = 2 powr (of_int ey - 52) * of_int (round_half_even (y / 2 powr (of_int ey - 52)))"
    using f64_round_form [of y] y by (simp add: ey_def)
  show ?thesis
  proof (cases "ex = ey")
    case True
    have "x / 2 powr (of_int ey - 52) \<le> y / 2 powr (of_int ey - 52)"
      using assms(2) by (simp add: divide_right_mono)
    from rhe_mono [OF this] show ?thesis unfolding fx fy True by simp
  next
    case False
    with le have lt: "ex + 1 \<le> ey" by simp
    have ub: "f64_round x \<le> 2 powr (of_int ex + 1)"
    proof -
      from f64_round_quot_bound(2) [of x] x
      have "x / 2 powr (of_int ex - 52) \<le> of_int (2 ^ 53)" by (simp add: ex_def)
      from rhe_mono [OF this] have "round_half_even (x / 2 powr (of_int ex - 52)) \<le> 2 ^ 53"
        unfolding rhe_of_int .
      then have "(of_int (round_half_even (x / 2 powr (of_int ex - 52))) :: real) \<le> 2 ^ 53"
        by (metis of_int_le_iff of_int_numeral of_int_power)
      then have "f64_round x \<le> 2 powr (of_int ex - 52) * 2 ^ 53"
        unfolding fx by (intro mult_left_mono) auto
      also have "\<dots> = 2 powr (of_int ex + 1)" by (simp add: powr_diff powr_add)
      finally show ?thesis .
    qed
    have lb: "2 powr of_int ey \<le> f64_round y"
    proof -
      have "ey > - 1022" using lt f64_exp_ge [of x] by (simp add: ex_def)
      then have "ey = \<lfloor>log 2 \<bar>y\<bar>\<rfloor>" by (simp add: ey_def f64_exp_def max_def split: if_splits)
      with y floor_log_eq_powr_iff [of "\<bar>y\<bar>" 2 ey] have "2 powr of_int ey \<le> y" by simp
      then have "2 powr of_int ey / 2 powr (of_int ey - 52) \<le> y / 2 powr (of_int ey - 52)"
        by (simp add: divide_right_mono)
      moreover have "2 powr of_int ey / 2 powr (of_int ey - 52) = (of_int (2 ^ 52) :: real)"
        by (simp add: powr_diff)
      ultimately have "of_int (2 ^ 52) \<le> y / 2 powr (of_int ey - 52)" by simp
      from rhe_mono [OF this] have "2 ^ 52 \<le> round_half_even (y / 2 powr (of_int ey - 52))"
        unfolding rhe_of_int .
      then have "(2 ^ 52 :: real) \<le> of_int (round_half_even (y / 2 powr (of_int ey - 52)))"
        by (metis of_int_le_iff of_int_numeral of_int_power)
      then have "2 powr (of_int ey - 52) * 2 ^ 52 \<le> f64_round y"
        unfolding fy by (intro mult_left_mono) auto
      moreover have "2 powr (of_int ey - 52) * 2 ^ 52 = (2::real) powr of_int ey"
        by (simp add: powr_diff)
      ultimately show ?thesis by simp
    qed
    have "(2::real) powr (of_int ex + 1) \<le> 2 powr of_int ey"
      using lt by (intro powr_mono) (auto simp: algebra_simps)
    with ub lb show ?thesis by linarith
  qed
qed

lemma f64_round_pow2: "- 1074 \<le> q \<Longrightarrow> f64_round (2 powr of_int q) = 2 powr of_int q"
  using f64_round_exact [of 1 q] by simp

lemma f64_round_power2: "f64_round (2 ^ n) = 2 ^ n"
  using f64_round_exact [of 1 "int n"] by (simp add: powr_realpow)

lemma f64_round_le:
  assumes "0 \<le> x" "x \<le> c" "f64_round c = c"
  shows "f64_round x \<le> c"
  using f64_round_mono [OF assms(1,2)] assms(3) by simp

lemma f64_round_ge:
  assumes "0 \<le> c" "c \<le> x" "f64_round c = c"
  shows "c \<le> f64_round x"
  using f64_round_mono [OF assms(1,2)] assms(3) by simp

section \<open>The similarity kernel on Python's numbers\<close>

subsection \<open>The errors it can raise\<close>

lemma py_then_simps [simp]: "py_then (Inl e) f = Inl e" "py_then (Inr v) f = f v"
  by (simp_all add: py_then_def)

lemma py_then_Inr: "py_then r f = Inr y \<longleftrightarrow> (\<exists>v. r = Inr v \<and> f v = Inr y)"
  by (cases r) simp_all

lemma py_then_Inl: "py_then r f = Inl e \<longleftrightarrow> r = Inl e \<or> (\<exists>v. r = Inr v \<and> f v = Inl e)"
  by (cases r) simp_all

lemma f64_of_real_0 [simp]: "f64_of_real 0 = Finite 0"
  by (simp add: f64_of_real_def f64_round_0)

lemma f64_of_real_cases:
  "f64_of_real x = Finite (f64_round x) \<and> \<bar>f64_round x\<bar> < 2 ^ 1024
   \<or> f64_of_real x = PosInf \<and> 2 ^ 1024 \<le> f64_round x
   \<or> f64_of_real x = NegInf \<and> f64_round x \<le> - (2 ^ 1024)"
  by (auto simp: f64_of_real_def Let_def)

lemma f64_of_real_nonneg:
  assumes "0 \<le> x"
  shows "f64_of_real x = Finite (f64_round x) \<and> 0 \<le> f64_round x \<and> f64_round x < 2 ^ 1024
       \<or> f64_of_real x = PosInf \<and> 2 ^ 1024 \<le> f64_round x"
  using f64_round_nonneg [OF assms] by (auto simp: f64_of_real_def Let_def)

lemma f64_of_real_Finite:
  "f64_of_real x = Finite y \<Longrightarrow> y = f64_round x \<and> f64_round y = y \<and> \<bar>y\<bar> < 2 ^ 1024"
  using f64_of_real_cases [of x] by (auto simp: f64_round_idem)

lemma to_f64_float [simp]: "to_f64 (PyFloat f) = Inr f"
  by (simp add: to_f64_def)

lemma to_f64_int:
  "to_f64 (PyInt n) = Inr f \<longleftrightarrow> f = Finite (f64_round (of_int n)) \<and> \<bar>f64_round (of_int n)\<bar> < 2 ^ 1024"
  using f64_of_real_cases [of "of_int n"] by (auto simp: to_f64_def split: f64.splits)

lemma to_f64_0 [simp]: "to_f64 (PyInt 0) = Inr (Finite 0)"
  by (simp add: to_f64_def)

lemma to_f64_error: "to_f64 v = Inl e \<Longrightarrow> e = OverflowError"
  by (cases v) (auto simp: to_f64_def split: f64.splits)

lemma to_f64_double: "to_f64 v = Inr f \<Longrightarrow> is_double v \<Longrightarrow> is_double (PyFloat f)"
  by (cases v) (auto simp: to_f64_int f64_round_idem)

lemma num_add_error: "num_add a b = Inl e \<Longrightarrow> e = OverflowError"
  by (cases a; cases b) (auto simp: py_then_Inl dest: to_f64_error)

lemma num_mul_error: "num_mul a b = Inl e \<Longrightarrow> e = OverflowError"
  by (cases a; cases b) (auto simp: py_then_Inl dest: to_f64_error)

lemma cosine_step_error: "cosine_step a b k acc = Inl e \<Longrightarrow> e = OverflowError"
  by (cases acc) (auto simp: cosine_step_def Let_def py_then_Inl dest: num_add_error num_mul_error)

lemma cosine_loop_error: "cosine_loop_f64 ks a b acc = Inl e \<Longrightarrow> e = OverflowError"
  by (induction ks arbitrary: acc) (auto split: sum.splits dest: cosine_step_error)

lemma f64_round_1: "f64_round 1 = 1"
  using f64_round_exact [of 1 0] by simp

lemma two_powr_neg: "(2::real) powr of_int (- int n) = 1 / 2 ^ n"
  by (simp add: powr_minus_divide powr_realpow)

lemma f64_least_pos: "0 < f64_least" "0 < f64_least_root"
  by (simp_all add: f64_least_def f64_least_root_def)

lemma f64_least_root_sq: "f64_least_root * f64_least_root = f64_least"
  by (simp add: f64_least_def f64_least_root_def power_add [symmetric])

lemma f64_round_least_root: "f64_round f64_least_root = f64_least_root"
proof -
  have "- 1074 \<le> - int 537" by simp
  from f64_round_pow2 [OF this] show ?thesis
    unfolding two_powr_neg f64_least_root_def .
qed

lemma f64_round_least: "f64_round f64_least = f64_least"
proof -
  have "- 1074 \<le> - int 1074" by simp
  from f64_round_pow2 [OF this] show ?thesis
    unfolding two_powr_neg f64_least_def .
qed

lemma double_pos_ge:
  assumes "0 < y" "f64_round y = y"
  shows "f64_least \<le> y"
proof -
  from assms have y0: "y \<noteq> 0" by simp
  from f64_round_repr [OF y0] obtain k
    where r: "f64_round y = of_int k * 2 powr of_int (f64_exp y - 52)" by blast
  with assms have pos: "0 < (of_int k :: real) * 2 powr of_int (f64_exp y - 52)" by simp
  have "(0::real) < 2 powr of_int (f64_exp y - 52)" by simp
  with pos have "0 < (of_int k :: real)" by (simp add: zero_less_mult_iff)
  then have "1 \<le> k" by simp
  then have "(1::real) \<le> of_int k" by simp
  then have "1 * 2 powr of_int (f64_exp y - 52) \<le> (of_int k :: real) * 2 powr of_int (f64_exp y - 52)"
    by (intro mult_right_mono) auto
  moreover have "(2::real) powr of_int (- int 1074) \<le> 2 powr of_int (f64_exp y - 52)"
    using f64_exp_ge [of y] by (intro powr_mono) auto
  ultimately have "2 powr of_int (- int 1074) \<le> f64_round y" unfolding r by linarith
  then show ?thesis unfolding two_powr_neg f64_least_def assms(2) .
qed

lemma num_mul_self_sq:
  assumes "num_mul v v = Inr s"
  shows "sq_acc s"
proof (cases v)
  case (PyInt n)
  with assms show ?thesis by (auto simp: sq_acc_def)
next
  case (PyFloat f)
  with assms have s: "s = PyFloat (f64_mul f f)" by simp
  show ?thesis
  proof (cases f)
    case (Finite x)
    have "0 \<le> x * x" by simp
    from f64_of_real_nonneg [OF this] show ?thesis
      by (auto simp: s Finite sq_acc_def f64_round_idem)
  qed (simp_all add: s sq_acc_def)
qed

lemma to_f64_sq:
  assumes "sq_acc v" "to_f64 v = Inr f"
  shows "sq_acc (PyFloat f)"
proof (cases v)
  case (PyInt n)
  with assms have "0 \<le> n" by (simp add: sq_acc_def)
  then have "0 \<le> f64_round (of_int n)" by (intro f64_round_nonneg) simp
  with assms(2) show ?thesis by (auto simp: PyInt to_f64_int sq_acc_def f64_round_idem)
next
  case (PyFloat g)
  with assms show ?thesis by simp
qed

lemma f64_add_sq:
  assumes "sq_acc (PyFloat f)" "sq_acc (PyFloat g)"
  shows "sq_acc (PyFloat (f64_add f g))"
proof (cases f; cases g)
  fix x y assume fg: "f = Finite x" "g = Finite y"
  with assms have "0 \<le> x + y" by (simp add: sq_acc_def)
  from f64_of_real_nonneg [OF this] show ?thesis
    by (auto simp: fg sq_acc_def f64_round_idem)
qed (use assms in \<open>simp_all add: sq_acc_def\<close>)

lemma num_add_sq:
  assumes "sq_acc x" "sq_acc y" "num_add x y = Inr z"
  shows "sq_acc z"
proof (cases "(\<exists>m. x = PyInt m) \<and> (\<exists>n. y = PyInt n)")
  case True
  with assms show ?thesis by (auto simp: sq_acc_def)
next
  case False
  then have "num_add x y = py_then (to_f64 x) (\<lambda>f. py_then (to_f64 y) (\<lambda>g. Inr (PyFloat (f64_add f g))))"
    by (cases x; cases y) simp_all
  with assms(3) obtain f g where f: "to_f64 x = Inr f" and g: "to_f64 y = Inr g"
    and z: "z = PyFloat (f64_add f g)" by (auto simp: py_then_Inr)
  from f64_add_sq [OF to_f64_sq [OF assms(1) f] to_f64_sq [OF assms(2) g]] show ?thesis
    by (simp add: z)
qed

lemma cosine_step_sq:
  assumes "cosine_step a b k (dot, na, nb) = Inr (dot', na', nb')" "sq_acc na" "sq_acc nb"
  shows "sq_acc na' \<and> sq_acc nb'"
proof -
  let ?va = "dict_get a k (PyInt 0)" and ?vb = "dict_get b k (PyInt 0)"
  from assms(1) obtain pa pb where pa: "num_mul ?va ?va = Inr pa" and na': "num_add na pa = Inr na'"
    and pb: "num_mul ?vb ?vb = Inr pb" and nb': "num_add nb pb = Inr nb'"
    by (auto simp: cosine_step_def Let_def py_then_Inr)
  from num_add_sq [OF assms(2) num_mul_self_sq [OF pa] na']
    num_add_sq [OF assms(3) num_mul_self_sq [OF pb] nb']
  show ?thesis by simp
qed

lemma cosine_loop_sq:
  assumes "cosine_loop_f64 ks a b (dot, na, nb) = Inr (dot', na', nb')" "sq_acc na" "sq_acc nb"
  shows "sq_acc na' \<and> sq_acc nb'"
  using assms
proof (induction ks arbitrary: dot na nb)
  case Nil
  then show ?case by simp
next
  case (Cons k ks)
  from Cons.prems(1) obtain d x y where step: "cosine_step a b k (dot, na, nb) = Inr (d, x, y)"
    and rest: "cosine_loop_f64 ks a b (d, x, y) = Inr (dot', na', nb')"
    by (auto split: sum.splits)
  from cosine_step_sq [OF step Cons.prems(2,3)] Cons.IH [OF rest] show ?case by simp
qed

lemma math_sqrt_sq:
  assumes "sq_acc v"
  shows "math_sqrt v = Inl OverflowError
       \<or> (\<exists>s. math_sqrt v = Inr (PyFloat s) \<and> (\<not> num_eq0 v \<longrightarrow> root_ok s))"
proof (cases "to_f64 v")
  case (Inl e)
  with to_f64_error [OF Inl] show ?thesis by (simp add: math_sqrt_def)
next
  case (Inr f)
  note sq = to_f64_sq [OF assms Inr]
  show ?thesis
  proof (cases f)
    case (Finite y)
    with sq have y: "0 \<le> y" "f64_round y = y" by (simp_all add: sq_acc_def)
    have m: "math_sqrt v = Inr (PyFloat (f64_of_real (sqrt y)))"
      using y(1) by (simp add: math_sqrt_def Inr Finite)
    have "root_ok (f64_of_real (sqrt y))" if nz: "\<not> num_eq0 v"
    proof -
      have "y \<noteq> 0"
      proof (cases v)
        case (PyInt n)
        with nz assms have "1 \<le> n" by (simp add: sq_acc_def)
        then have "(1::real) \<le> of_int n" by simp
        from f64_round_ge [OF _ this f64_round_1] have "1 \<le> f64_round (of_int n)" by simp
        with Inr Finite PyInt show ?thesis by (simp add: to_f64_int)
      next
        case (PyFloat g)
        with Inr Finite nz show ?thesis by simp
      qed
      with y(1) have "0 < y" by simp
      from double_pos_ge [OF this y(2)] have "f64_least_root\<^sup>2 \<le> y"
        by (simp add: power2_eq_square f64_least_root_sq)
      then have "f64_least_root \<le> sqrt y" by (rule real_le_rsqrt)
      from f64_round_ge [OF _ this f64_round_least_root] f64_least_pos(2)
      have "f64_least_root \<le> f64_round (sqrt y)" by simp
      with f64_of_real_nonneg [of "sqrt y"] y(1) show ?thesis by auto
    qed
    with m show ?thesis by blast
  next
    case PosInf
    then show ?thesis by (simp add: math_sqrt_def Inr)
  next
    case NegInf
    with sq show ?thesis by (simp add: sq_acc_def)
  next
    case NaN
    then show ?thesis by (simp add: math_sqrt_def Inr)
  qed
qed

lemma f64_mul_roots:
  assumes "root_ok sa" "root_ok sb"
  shows "div_ok (f64_mul sa sb)"
proof (cases sa; cases sb)
  fix x y assume ab: "sa = Finite x" "sb = Finite y"
  with assms have x: "f64_least_root \<le> x" and y: "f64_least_root \<le> y" by simp_all
  have "f64_least_root * f64_least_root \<le> x * y"
    by (rule mult_mono [OF x y]) (use x f64_least_pos in auto)
  then have le: "f64_least \<le> x * y" by (simp add: f64_least_root_sq)
  from f64_round_ge [OF _ le f64_round_least] f64_least_pos(1)
  have "f64_least \<le> f64_round (x * y)" by simp
  with f64_least_pos(1) have "0 < f64_round (x * y)" by linarith
  moreover have "0 \<le> x * y" using le f64_least_pos(1) by linarith
  ultimately show ?thesis using f64_of_real_nonneg [of "x * y"] by (auto simp: ab)
next
  fix x assume ab: "sa = Finite x" "sb = PosInf"
  with assms f64_least_pos(2) have "0 < x" by simp
  then show ?thesis by (simp add: ab)
next
  fix y assume ab: "sa = PosInf" "sb = Finite y"
  with assms f64_least_pos(2) have "0 < y" by simp
  then show ?thesis by (simp add: ab)
qed (use assms in simp_all)

lemma num_div_ok:
  assumes "div_ok d"
  shows "num_div dot (PyFloat d) =
           py_then (to_f64 dot) (\<lambda>x. Inr (PyFloat (f64_div x d)))"
proof -
  from assms have "d \<noteq> Finite 0" by auto
  then show ?thesis by (cases dot) (simp_all add: py_then_def split: sum.splits)
qed

lemma cosine_sim_f64_cases:
  assumes loop: "cosine_loop_f64 ks a b (PyInt 0, PyInt 0, PyInt 0) = Inr (dot, na, nb)"
  shows "(num_eq0 na \<or> num_eq0 nb) \<and> cosine_sim_f64 ks a b = Inr (PyInt 0)
       \<or> \<not> num_eq0 na \<and> \<not> num_eq0 nb
           \<and> (math_sqrt na = Inl OverflowError \<or> math_sqrt nb = Inl OverflowError
                \<or> to_f64 dot = Inl OverflowError)
           \<and> cosine_sim_f64 ks a b = Inl OverflowError
       \<or> \<not> num_eq0 na \<and> \<not> num_eq0 nb
           \<and> (\<exists>sa sb x. math_sqrt na = Inr (PyFloat sa) \<and> math_sqrt nb = Inr (PyFloat sb)
                  \<and> root_ok sa \<and> root_ok sb \<and> div_ok (f64_mul sa sb) \<and> to_f64 dot = Inr x
                  \<and> cosine_sim_f64 ks a b = Inr (PyFloat (f64_div x (f64_mul sa sb))))"
proof (cases "num_eq0 na \<or> num_eq0 nb")
  case True
  then show ?thesis by (simp add: cosine_sim_f64_def loop)
next
  case False
  have sq: "sq_acc na" "sq_acc nb"
    using cosine_loop_sq [OF loop] by (simp_all add: sq_acc_def)
  have unfold: "cosine_sim_f64 ks a b =
      py_then (math_sqrt na) (\<lambda>sa. py_then (math_sqrt nb) (\<lambda>sb.
            py_then (num_mul sa sb) (\<lambda>d. num_div dot d)))"
    using False by (simp add: cosine_sim_f64_def loop)
  from math_sqrt_sq [OF sq(1)] False
  consider "math_sqrt na = Inl OverflowError"
    | sa where "math_sqrt na = Inr (PyFloat sa)" "root_ok sa" by auto
  then show ?thesis
  proof cases
    case 1
    with False show ?thesis by (simp add: unfold)
  next
    case a: 2
    from math_sqrt_sq [OF sq(2)] False
    consider "math_sqrt nb = Inl OverflowError"
      | sb where "math_sqrt nb = Inr (PyFloat sb)" "root_ok sb" by auto
    then show ?thesis
    proof cases
      case 1
      with False a show ?thesis by (simp add: unfold)
    next
      case b: 2
      note ok = f64_mul_roots [OF a(2) b(2)]
      have u: "cosine_sim_f64 ks a b = py_then (to_f64 dot) (\<lambda>x. Inr (PyFloat (f64_div x (f64_mul sa sb))))"
        by (simp add: unfold a(1) b(1) num_div_ok [OF ok] del: num_div.simps)
      show ?thesis
      proof (cases "to_f64 dot")
        case (Inl e)
        with to_f64_error [OF Inl] False u show ?thesis by simp
      next
        case (Inr x)
        with False a b ok u show ?thesis by simp
      qed
    qed
  qed
qed

lemma cosine_sim_f64_error:
  assumes "cosine_sim_f64 ks a b = Inl e"
  shows "e = OverflowError"
proof (cases "cosine_loop_f64 ks a b (PyInt 0, PyInt 0, PyInt 0)")
  case (Inl e')
  with assms cosine_loop_error [OF Inl] show ?thesis by (simp add: cosine_sim_f64_def)
next
  case (Inr acc)
  obtain dot na nb where "acc = (dot, na, nb)" by (cases acc)
  with Inr cosine_sim_f64_cases [of ks a b dot na nb] assms show ?thesis by auto
qed

subsection \<open>Non-negative weights, zero vectors, float weights\<close>

lemma dict_get_pred:
  assumes "\<forall>v\<in>snd ` set d. P v" "P dflt"
  shows "P (dict_get d k dflt)"
proof (cases "map_of d k")
  case None
  with assms(2) show ?thesis by (simp add: dict_get_def)
next
  case (Some v)
  then have "(k, v) \<in> set d" by (rule map_of_SomeD)
  then have "v \<in> snd ` set d" by (rule rev_image_eqI) simp
  from bspec [OF assms(1) this] have "P v" .
  with Some show ?thesis by (simp add: dict_get_def)
qed

lemma to_f64_nn:
  assumes "nonneg_or_nan v" "to_f64 v = Inr f"
  shows "nonneg_or_nan (PyFloat f)"
proof (cases v)
  case (PyInt n)
  with assms have "0 \<le> n" by (simp add: nonneg_or_nan_def)
  then have "0 \<le> f64_round (of_int n)" by (intro f64_round_nonneg) simp
  with assms(2) show ?thesis by (auto simp: PyInt to_f64_int nonneg_or_nan_def)
next
  case (PyFloat g)
  with assms show ?thesis by simp
qed

lemma f64_mul_nn:
  assumes "nonneg_or_nan (PyFloat f)" "nonneg_or_nan (PyFloat g)"
  shows "nonneg_or_nan (PyFloat (f64_mul f g))"
proof (cases f; cases g)
  fix x y assume fg: "f = Finite x" "g = Finite y"
  with assms have "0 \<le> x * y" by (simp add: nonneg_or_nan_def)
  from f64_of_real_nonneg [OF this] show ?thesis
    by (auto simp: fg nonneg_or_nan_def)
qed (use assms in \<open>auto simp: nonneg_or_nan_def\<close>)

lemma f64_add_nn:
  assumes "nonneg_or_nan (PyFloat f)" "nonneg_or_nan (PyFloat g)"
  shows "nonneg_or_nan (PyFloat (f64_add f g))"
proof (cases f; cases g)
  fix x y assume fg: "f = Finite x" "g = Finite y"
  with assms have "0 \<le> x + y" by (simp add: nonneg_or_nan_def)
  from f64_of_real_nonneg [OF this] show ?thesis
    by (auto simp: fg nonneg_or_nan_def)
qed (use assms in \<open>auto simp: nonneg_or_nan_def\<close>)

lemma f64_div_nn:
  assumes "nonneg_or_nan (PyFloat f)" "div_ok d"
  shows "nonneg_or_nan (PyFloat (f64_div f d))"
proof (cases f; cases d)
  fix x y assume fg: "f = Finite x" "d = Finite y"
  with assms have "0 \<le> x / y" by (simp add: nonneg_or_nan_def)
  from f64_of_real_nonneg [OF this] show ?thesis
    by (auto simp: fg nonneg_or_nan_def)
qed (use assms in \<open>auto simp: nonneg_or_nan_def\<close>)

lemma num_mul_nn:
  assumes "nonneg_or_nan x" "nonneg_or_nan y" "num_mul x y = Inr z"
  shows "nonneg_or_nan z"
proof (cases "(\<exists>m. x = PyInt m) \<and> (\<exists>n. y = PyInt n)")
  case True
  with assms show ?thesis by (auto simp: nonneg_or_nan_def)
next
  case False
  then have "num_mul x y = py_then (to_f64 x) (\<lambda>f. py_then (to_f64 y) (\<lambda>g. Inr (PyFloat (f64_mul f g))))"
    by (cases x; cases y) simp_all
  with assms(3) obtain f g where f: "to_f64 x = Inr f" and g: "to_f64 y = Inr g"
    and z: "z = PyFloat (f64_mul f g)" by (auto simp: py_then_Inr)
  from f64_mul_nn [OF to_f64_nn [OF assms(1) f] to_f64_nn [OF assms(2) g]] show ?thesis
    by (simp add: z)
qed

lemma num_add_nn:
  assumes "nonneg_or_nan x" "nonneg_or_nan y" "num_add x y = Inr z"
  shows "nonneg_or_nan z"
proof (cases "(\<exists>m. x = PyInt m) \<and> (\<exists>n. y = PyInt n)")
  case True
  with assms show ?thesis by (auto simp: nonneg_or_nan_def)
next
  case False
  then have "num_add x y = py_then (to_f64 x) (\<lambda>f. py_then (to_f64 y) (\<lambda>g. Inr (PyFloat (f64_add f g))))"
    by (cases x; cases y) simp_all
  with assms(3) obtain f g where f: "to_f64 x = Inr f" and g: "to_f64 y = Inr g"
    and z: "z = PyFloat (f64_add f g)" by (auto simp: py_then_Inr)
  from f64_add_nn [OF to_f64_nn [OF assms(1) f] to_f64_nn [OF assms(2) g]] show ?thesis
    by (simp add: z)
qed

lemma cosine_loop_nn:
  assumes a: "\<forall>v\<in>snd ` set a. nonneg_or_nan v" and b: "\<forall>v\<in>snd ` set b. nonneg_or_nan v"
    and "cosine_loop_f64 ks a b (dot, na, nb) = Inr (dot', na', nb')" "nonneg_or_nan dot"
  shows "nonneg_or_nan dot'"
  using assms(3,4)
proof (induction ks arbitrary: dot na nb)
  case Nil
  then show ?case by simp
next
  case (Cons k ks)
  have z: "nonneg_or_nan (PyInt 0)" by (simp add: nonneg_or_nan_def)
  note va = dict_get_pred [OF a z, of k] and vb = dict_get_pred [OF b z, of k]
  from Cons.prems(1) obtain d x y where step: "cosine_step a b k (dot, na, nb) = Inr (d, x, y)"
    and rest: "cosine_loop_f64 ks a b (d, x, y) = Inr (dot', na', nb')"
    by (auto split: sum.splits)
  from step obtain p where p: "num_mul (dict_get a k (PyInt 0)) (dict_get b k (PyInt 0)) = Inr p"
    and d: "num_add dot p = Inr d"
    by (auto simp: cosine_step_def Let_def py_then_Inr)
  from num_add_nn [OF Cons.prems(2) num_mul_nn [OF va vb p] d] have "nonneg_or_nan d" .
  from Cons.IH [OF rest this] show ?case .
qed

lemma cosine_sim_f64_nonneg:
  assumes a: "\<forall>v\<in>snd ` set a. nonneg_or_nan v" and b: "\<forall>v\<in>snd ` set b. nonneg_or_nan v"
    and r: "cosine_sim_f64 ks a b = Inr r"
  shows "nonneg_or_nan r"
proof -
  from r obtain dot na nb
    where loop: "cosine_loop_f64 ks a b (PyInt 0, PyInt 0, PyInt 0) = Inr (dot, na, nb)"
    by (auto simp: cosine_sim_f64_def py_then_Inr)
  have "nonneg_or_nan (PyInt 0)" by (simp add: nonneg_or_nan_def)
  from cosine_loop_nn [OF a b loop this] have dot: "nonneg_or_nan dot" .
  from cosine_sim_f64_cases [OF loop] r
  consider "r = PyInt 0"
    | sa sb x where "div_ok (f64_mul sa sb)" "to_f64 dot = Inr x"
        "r = PyFloat (f64_div x (f64_mul sa sb))" by auto
  then show ?thesis
  proof cases
    case 1
    then show ?thesis by (simp add: nonneg_or_nan_def)
  next
    case 2
    from f64_div_nn [OF to_f64_nn [OF dot 2(2)] 2(1)] show ?thesis by (simp add: 2(3))
  qed
qed

lemma num_mul_zero:
  assumes "num_eq0 v" "num_mul v v = Inr s"
  shows "num_eq0 s"
proof (cases v)
  case (PyInt n)
  with assms show ?thesis by auto
next
  case (PyFloat f)
  with assms show ?thesis by (cases f) auto
qed

lemma to_f64_zero:
  assumes "num_eq0 v" "to_f64 v = Inr f"
  shows "f = Finite 0"
proof (cases v)
  case (PyInt n)
  with assms show ?thesis by simp
next
  case (PyFloat g)
  with assms show ?thesis by (cases g) auto
qed

lemma num_add_zero:
  assumes "num_eq0 x" "num_eq0 y" "num_add x y = Inr z"
  shows "num_eq0 z"
proof (cases "(\<exists>m. x = PyInt m) \<and> (\<exists>n. y = PyInt n)")
  case True
  with assms show ?thesis by auto
next
  case False
  then have "num_add x y = py_then (to_f64 x) (\<lambda>f. py_then (to_f64 y) (\<lambda>g. Inr (PyFloat (f64_add f g))))"
    by (cases x; cases y) simp_all
  with assms(3) obtain f g where f: "to_f64 x = Inr f" and g: "to_f64 y = Inr g"
    and z: "z = PyFloat (f64_add f g)" by (auto simp: py_then_Inr)
  from to_f64_zero [OF assms(1) f] to_f64_zero [OF assms(2) g] show ?thesis by (simp add: z)
qed

lemma cosine_loop_zero_left:
  assumes a: "\<forall>v\<in>snd ` set a. num_eq0 v"
    and "cosine_loop_f64 ks a b (dot, na, nb) = Inr (dot', na', nb')" "num_eq0 na"
  shows "num_eq0 na'"
  using assms(2,3)
proof (induction ks arbitrary: dot na nb)
  case Nil
  then show ?case by simp
next
  case (Cons k ks)
  have z: "num_eq0 (PyInt 0)" by simp
  note va = dict_get_pred [OF a z, of k]
  from Cons.prems(1) obtain d x y where step: "cosine_step a b k (dot, na, nb) = Inr (d, x, y)"
    and rest: "cosine_loop_f64 ks a b (d, x, y) = Inr (dot', na', nb')"
    by (auto split: sum.splits)
  from step obtain p where p: "num_mul (dict_get a k (PyInt 0)) (dict_get a k (PyInt 0)) = Inr p"
    and x: "num_add na p = Inr x"
    by (auto simp: cosine_step_def Let_def py_then_Inr)
  from num_add_zero [OF Cons.prems(2) num_mul_zero [OF va p] x] have "num_eq0 x" .
  from Cons.IH [OF rest this] show ?case .
qed

lemma cosine_loop_zero_right:
  assumes b: "\<forall>v\<in>snd ` set b. num_eq0 v"
    and "cosine_loop_f64 ks a b (dot, na, nb) = Inr (dot', na', nb')" "num_eq0 nb"
  shows "num_eq0 nb'"
  using assms(2,3)
proof (induction ks arbitrary: dot na nb)
  case Nil
  then show ?case by simp
next
  case (Cons k ks)
  have z: "num_eq0 (PyInt 0)" by simp
  note vb = dict_get_pred [OF b z, of k]
  from Cons.prems(1) obtain d x y where step: "cosine_step a b k (dot, na, nb) = Inr (d, x, y)"
    and rest: "cosine_loop_f64 ks a b (d, x, y) = Inr (dot', na', nb')"
    by (auto split: sum.splits)
  from step obtain p where p: "num_mul (dict_get b k (PyInt 0)) (dict_get b k (PyInt 0)) = Inr p"
    and y: "num_add nb p = Inr y"
    by (auto simp: cosine_step_def Let_def py_then_Inr)
  from num_add_zero [OF Cons.prems(2) num_mul_zero [OF vb p] y] have "num_eq0 y" .
  from Cons.IH [OF rest this] show ?case .
qed

lemma cosine_sim_f64_zero:
  assumes "(\<forall>v\<in>snd ` set a. num_eq0 v) \<or> (\<forall>v\<in>snd ` set b. num_eq0 v)"
    and r: "cosine_sim_f64 ks a b = Inr r"
  shows "r = PyInt 0"
proof -
  from r obtain dot na nb
    where loop: "cosine_loop_f64 ks a b (PyInt 0, PyInt 0, PyInt 0) = Inr (dot, na, nb)"
    by (auto simp: cosine_sim_f64_def py_then_Inr)
  from assms(1) cosine_loop_zero_left [OF _ loop] cosine_loop_zero_right [OF _ loop]
  have "num_eq0 na \<or> num_eq0 nb" by auto
  with r show ?thesis by (simp add: cosine_sim_f64_def loop)
qed

lemma to_f64_fz: "float_or_zero v \<Longrightarrow> \<exists>f. to_f64 v = Inr f"
  by (cases v) auto

lemma num_mul_fz:
  assumes "float_or_zero x" "float_or_zero y"
  shows "\<exists>z. num_mul x y = Inr z \<and> float_or_zero z"
proof (cases "(\<exists>m. x = PyInt m) \<and> (\<exists>n. y = PyInt n)")
  case True
  with assms show ?thesis by auto
next
  case False
  then have "num_mul x y = py_then (to_f64 x) (\<lambda>f. py_then (to_f64 y) (\<lambda>g. Inr (PyFloat (f64_mul f g))))"
    by (cases x; cases y) simp_all
  with to_f64_fz [OF assms(1)] to_f64_fz [OF assms(2)] show ?thesis by auto
qed

lemma num_add_fz:
  assumes "float_or_zero x" "float_or_zero y"
  shows "\<exists>z. num_add x y = Inr z \<and> float_or_zero z"
proof (cases "(\<exists>m. x = PyInt m) \<and> (\<exists>n. y = PyInt n)")
  case True
  with assms show ?thesis by auto
next
  case False
  then have "num_add x y = py_then (to_f64 x) (\<lambda>f. py_then (to_f64 y) (\<lambda>g. Inr (PyFloat (f64_add f g))))"
    by (cases x; cases y) simp_all
  with to_f64_fz [OF assms(1)] to_f64_fz [OF assms(2)] show ?thesis by auto
qed

lemma cosine_step_fz:
  assumes a: "\<forall>v\<in>snd ` set a. float_or_zero v" and b: "\<forall>v\<in>snd ` set b. float_or_zero v"
    and acc: "float_or_zero dot" "float_or_zero na" "float_or_zero nb"
  shows "\<exists>d x y. cosine_step a b k (dot, na, nb) = Inr (d, x, y)
           \<and> float_or_zero d \<and> float_or_zero x \<and> float_or_zero y"
proof -
  have z: "float_or_zero (PyInt 0)" by simp
  note va = dict_get_pred [OF a z, of k] and vb = dict_get_pred [OF b z, of k]
  from num_mul_fz [OF va vb] obtain p
    where p: "num_mul (dict_get a k (PyInt 0)) (dict_get b k (PyInt 0)) = Inr p" "float_or_zero p"
    by blast
  from num_add_fz [OF acc(1) p(2)] obtain d where d: "num_add dot p = Inr d" "float_or_zero d"
    by blast
  from num_mul_fz [OF va va] obtain pa
    where pa: "num_mul (dict_get a k (PyInt 0)) (dict_get a k (PyInt 0)) = Inr pa" "float_or_zero pa"
    by blast
  from num_add_fz [OF acc(2) pa(2)] obtain x where x: "num_add na pa = Inr x" "float_or_zero x"
    by blast
  from num_mul_fz [OF vb vb] obtain pb
    where pb: "num_mul (dict_get b k (PyInt 0)) (dict_get b k (PyInt 0)) = Inr pb" "float_or_zero pb"
    by blast
  from num_add_fz [OF acc(3) pb(2)] obtain y where y: "num_add nb pb = Inr y" "float_or_zero y"
    by blast
  from p d pa x pb y show ?thesis by (simp add: cosine_step_def Let_def)
qed

lemma cosine_loop_fz:
  assumes a: "\<forall>v\<in>snd ` set a. float_or_zero v" and b: "\<forall>v\<in>snd ` set b. float_or_zero v"
    and acc: "float_or_zero dot" "float_or_zero na" "float_or_zero nb"
  shows "\<exists>d x y. cosine_loop_f64 ks a b (dot, na, nb) = Inr (d, x, y)
           \<and> float_or_zero d \<and> float_or_zero x \<and> float_or_zero y"
  using acc
proof (induction ks arbitrary: dot na nb)
  case Nil
  then show ?case by simp
next
  case (Cons k ks)
  from cosine_step_fz [OF a b Cons.prems] obtain d x y
    where step: "cosine_step a b k (dot, na, nb) = Inr (d, x, y)"
      and fz: "float_or_zero d" "float_or_zero x" "float_or_zero y" by blast
  from Cons.IH [OF fz] step show ?case by simp
qed

lemma f64_sqrt_error: "f64_sqrt x = Inl e \<Longrightarrow> e = ValueError"
  by (cases x) (auto split: if_splits)

lemma math_sqrt_fz:
  assumes "float_or_zero v"
  shows "math_sqrt v \<noteq> Inl OverflowError"
proof
  assume e: "math_sqrt v = Inl OverflowError"
  from to_f64_fz [OF assms] obtain f where f: "to_f64 v = Inr f" ..
  with e have "\<exists>e'. f64_sqrt f = Inl OverflowError"
    by (auto simp: math_sqrt_def py_then_Inl)
  then show False by (auto dest: f64_sqrt_error)
qed

lemma cosine_sim_f64_floats:
  assumes a: "\<forall>v\<in>snd ` set a. float_or_zero v" and b: "\<forall>v\<in>snd ` set b. float_or_zero v"
  shows "\<exists>r. cosine_sim_f64 ks a b = Inr r"
proof -
  have z: "float_or_zero (PyInt 0)" by simp
  from cosine_loop_fz [OF a b z z z] obtain dot na nb
    where loop: "cosine_loop_f64 ks a b (PyInt 0, PyInt 0, PyInt 0) = Inr (dot, na, nb)"
      and fz: "float_or_zero dot" "float_or_zero na" "float_or_zero nb" by blast
  from to_f64_fz [OF fz(1)] have "to_f64 dot \<noteq> Inl OverflowError" by auto
  with cosine_sim_f64_cases [OF loop] math_sqrt_fz [OF fz(2)] math_sqrt_fz [OF fz(3)]
  show ?thesis by auto
qed

subsection \<open>Integer weights\<close>

lemma int_weights_get:
  assumes "int_weights d"
  shows "dict_get d k (PyInt 0) = PyInt (int_get d k)"
proof -
  have "\<exists>n. dict_get d k (PyInt 0) = PyInt n"
    by (rule dict_get_pred) (use assms in \<open>auto simp: int_weights_def\<close>)
  then show ?thesis by (auto simp: int_get_def)
qed

lemma cosine_step_ints:
  assumes "int_weights a" "int_weights b"
  shows "cosine_step a b k (PyInt d, PyInt x, PyInt y) =
           Inr (PyInt (d + int_get a k * int_get b k),
                PyInt (x + int_get a k * int_get a k),
                PyInt (y + int_get b k * int_get b k))"
  by (simp add: cosine_step_def int_weights_get [OF assms(1)] int_weights_get [OF assms(2)])

lemma cosine_loop_ints:
  assumes "int_weights a" "int_weights b"
  shows "cosine_loop_f64 ks a b (PyInt d, PyInt x, PyInt y) =
           Inr (PyInt (d + int_dot ks a b), PyInt (x + int_sq ks a), PyInt (y + int_sq ks b))"
proof (induction ks arbitrary: d x y)
  case Nil
  then show ?case by (simp add: int_dot_def int_sq_def)
next
  case (Cons k ks)
  show ?case
    by (simp add: cosine_step_ints [OF assms] Cons.IH int_dot_def int_sq_def add.assoc)
qed

lemma f64_eps_bounds: "0 < f64_eps" "f64_eps < 1 / 20"
  by (simp_all add: f64_eps_def)

lemma eps_poly:
  fixes u :: real
  assumes "0 \<le> u" "u \<le> 1 / 20"
  shows "1 + u \<le> (1 + 8 * u) * (1 - u) ^ 5"
proof -
  have "- 1 \<le> - u" using assms by simp
  from Bernoulli_inequality [OF this, of 5] have b: "1 - 5 * u \<le> (1 - u) ^ 5" by simp
  have "0 \<le> u * (1 - 20 * u)" using assms by (intro mult_nonneg_nonneg) auto
  then have "1 + u \<le> (1 + 8 * u) * (1 - 5 * u)" by (simp add: algebra_simps)
  also have "\<dots> \<le> (1 + 8 * u) * (1 - u) ^ 5"
    using b assms by (intro mult_left_mono) auto
  finally show ?thesis .
qed

lemma f64_round_rel_lower:
  assumes "1 / 2 \<le> x"
  shows "x * (1 - f64_eps) \<le> f64_round x"
proof -
  have "(2::real) powr (- 1022) \<le> 2 powr (- 1)" by (intro powr_mono) auto
  also have "\<dots> = 1 / 2" by (simp add: powr_minus_divide)
  finally have "2 powr (- 1022) \<le> \<bar>x\<bar>" using assms by linarith
  from f64_round_rel [OF this] assms have "\<bar>f64_round x - x\<bar> \<le> x * f64_eps"
    by (simp add: f64_eps_def)
  then show ?thesis by (simp add: algebra_simps abs_le_iff)
qed

lemma f64_round_rel_upper:
  assumes "1 / 2 \<le> x"
  shows "f64_round x \<le> x * (1 + f64_eps)"
proof -
  have "(2::real) powr (- 1022) \<le> 2 powr (- 1)" by (intro powr_mono) auto
  also have "\<dots> = 1 / 2" by (simp add: powr_minus_divide)
  finally have "2 powr (- 1022) \<le> \<bar>x\<bar>" using assms by linarith
  from f64_round_rel [OF this] assms have "\<bar>f64_round x - x\<bar> \<le> x * f64_eps"
    by (simp add: f64_eps_def)
  then show ?thesis by (simp add: algebra_simps abs_le_iff)
qed

lemma f64_round_ge_1: "1 \<le> x \<Longrightarrow> 1 \<le> f64_round x"
  using f64_round_ge [of 1 x] by (simp add: f64_round_1)

lemma root_lower:
  fixes A :: real
  assumes "1 \<le> A"
  defines "t \<equiv> 1 - f64_eps"
  shows "sqrt A * t\<^sup>2 \<le> f64_round (sqrt (f64_round A))" "1 \<le> f64_round (sqrt (f64_round A))"
proof -
  have t: "0 < t" "t \<le> 1" using f64_eps_bounds by (simp_all add: t_def)
  have a1: "A * t \<le> f64_round A" unfolding t_def by (rule f64_round_rel_lower) (use assms(1) in linarith)
  have a1': "1 \<le> f64_round A" by (rule f64_round_ge_1 [OF assms(1)])
  then have s1: "1 \<le> sqrt (f64_round A)" by simp
  show "1 \<le> f64_round (sqrt (f64_round A))" by (rule f64_round_ge_1 [OF s1])
  have "t\<^sup>2 \<le> t" using t by (simp add: power2_eq_square mult_left_le)
  then have tt: "t \<le> sqrt t" by (rule real_le_rsqrt)
  have "sqrt A * t \<le> sqrt A * sqrt t" using tt assms by (intro mult_left_mono) auto
  also have "\<dots> = sqrt (A * t)" by (simp add: real_sqrt_mult)
  also have "\<dots> \<le> sqrt (f64_round A)" using a1 by simp
  finally have "sqrt A * t \<le> sqrt (f64_round A)" .
  then have "sqrt A * t * t \<le> sqrt (f64_round A) * t" using t by (intro mult_right_mono) auto
  also have "\<dots> \<le> f64_round (sqrt (f64_round A))"
    unfolding t_def by (rule f64_round_rel_lower) (use s1 in linarith)
  finally show "sqrt A * t\<^sup>2 \<le> f64_round (sqrt (f64_round A))"
    by (simp add: power2_eq_square mult.assoc)
qed

lemma cosine_quotient_bound:
  fixes A B D :: real
  assumes A: "1 \<le> A" and B: "1 \<le> B" and D: "D = 0 \<or> 1 \<le> D" and cs: "D\<^sup>2 \<le> A * B"
  defines "sa \<equiv> f64_round (sqrt (f64_round A))" and "sb \<equiv> f64_round (sqrt (f64_round B))"
  defines "p \<equiv> f64_round (sa * sb)"
  shows "0 < p" "0 \<le> f64_round D / p" "f64_round D / p \<le> cosine_bound"
proof -
  define t where "t = 1 - f64_eps"
  define S where "S = sqrt A * sqrt B"
  have t: "0 < t" "t \<le> 1" using f64_eps_bounds by (simp_all add: t_def)
  have S: "1 \<le> S" unfolding S_def using A B
    by (metis mult_mono' real_sqrt_ge_1_iff mult_1 zero_le_one)
  note ra = root_lower [OF A, folded sa_def t_def] and rb = root_lower [OF B, folded sb_def t_def]
  have ab: "1 \<le> sa * sb" using ra(2) rb(2) by (metis mult_mono' mult_1 zero_le_one)
  then have p1: "1 \<le> p" unfolding p_def by (rule f64_round_ge_1)
  then show "0 < p" by simp
  have "sqrt A * t\<^sup>2 * (sqrt B * t\<^sup>2) \<le> sa * sb"
    by (rule mult_mono [OF ra(1) rb(1)]) (use ra(2) t A B in auto)
  then have "S * t ^ 4 \<le> sa * sb" by (simp add: S_def power2_eq_square algebra_simps eval_nat_numeral)
  then have "S * t ^ 4 * t \<le> sa * sb * t" using t by (intro mult_right_mono) auto
  also have "\<dots> \<le> p" unfolding p_def t_def by (rule f64_round_rel_lower) (use ab in linarith)
  finally have pl: "S * t ^ 5 \<le> p" by (simp add: eval_nat_numeral mult.assoc)
  have D0: "0 \<le> D" using D by auto
  have "D \<le> sqrt (A * B)" by (rule real_le_rsqrt [OF cs])
  then have DS: "D \<le> S" by (simp add: S_def real_sqrt_mult)
  have d0: "0 \<le> f64_round D" by (rule f64_round_nonneg [OF D0])
  then show "0 \<le> f64_round D / p" using p1 by simp
  have du: "f64_round D \<le> S * (1 + f64_eps)"
  proof (cases "D = 0")
    case True
    then show ?thesis using S f64_eps_bounds by (simp add: f64_round_0)
  next
    case False
    with D have "1 \<le> D" by simp
    then have "f64_round D \<le> D * (1 + f64_eps)" by (intro f64_round_rel_upper) linarith
    also have "\<dots> \<le> S * (1 + f64_eps)" using DS f64_eps_bounds by (intro mult_right_mono) auto
    finally show ?thesis .
  qed
  have st: "0 < S * t ^ 5" using S t by simp
  have "f64_round D / p \<le> (S * (1 + f64_eps)) / (S * t ^ 5)"
    by (rule frac_le [OF _ du st pl]) (use S f64_eps_bounds in simp)
  also have "\<dots> = (1 + f64_eps) / t ^ 5" using S by simp
  also have "\<dots> \<le> 1 + 8 * f64_eps"
  proof -
    from eps_poly [of f64_eps] f64_eps_bounds
    have "1 + f64_eps \<le> (1 + 8 * f64_eps) * t ^ 5" by (simp add: t_def)
    then show ?thesis using t by (simp add: pos_divide_le_eq)
  qed
  also have "\<dots> = cosine_bound" by (simp add: f64_eps_def cosine_bound_def)
  finally show "f64_round D / p \<le> cosine_bound" .
qed

lemma of_int_sum_list_map: "(of_int (\<Sum>k\<leftarrow>ks. f k) :: real) = (\<Sum>k\<leftarrow>ks. of_int (f k))"
  by (induction ks) simp_all

lemma int_cauchy_schwarz:
  "(of_int (int_dot ks a b) :: real)\<^sup>2 \<le> of_int (int_sq ks a) * of_int (int_sq ks b)"
  using cauchy_schwarz_list [of "\<lambda>k. of_int (int_get a k)" "\<lambda>k. of_int (int_get b k)" ks]
  by (simp add: int_dot_def int_sq_def of_int_sum_list_map power2_eq_square)

lemma int_sq_nonneg: "0 \<le> int_sq ks a"
  unfolding int_sq_def by (rule sum_list_nonneg) auto

lemma f64_of_real_finite: "\<bar>f64_round x\<bar> < 2 ^ 1024 \<Longrightarrow> f64_of_real x = Finite (f64_round x)"
  by (auto simp: f64_of_real_def Let_def)

lemma f64_of_real_sqrt:
  assumes "0 \<le> y" "y < 2 ^ 1024"
  shows "f64_of_real (sqrt y) = Finite (f64_round (sqrt y))"
proof -
  have "y \<le> (2 ^ 512)\<^sup>2" using assms(2) by (simp add: power_mult [symmetric])
  then have "sqrt y \<le> 2 ^ 512" by (intro real_le_lsqrt) (use assms in auto)
  moreover have "f64_round (2 ^ 512) = (2 ^ 512 :: real)" by (rule f64_round_power2)
  moreover have "0 \<le> sqrt y" using assms(1) by simp
  ultimately have "f64_round (sqrt y) \<le> 2 ^ 512" by (intro f64_round_le)
  moreover have "(2::real) ^ 512 < 2 ^ 1024" by simp
  ultimately have "f64_round (sqrt y) < 2 ^ 1024" by linarith
  moreover have "0 \<le> f64_round (sqrt y)" by (rule f64_round_nonneg) (use assms(1) in simp)
  ultimately show ?thesis by (intro f64_of_real_finite) simp
qed

lemma math_sqrt_int:
  assumes "0 \<le> n"
  shows "math_sqrt (PyInt n) =
           (if f64_round (of_int n) < 2 ^ 1024
            then Inr (PyFloat (Finite (f64_round (sqrt (f64_round (of_int n))))))
            else Inl OverflowError)"
proof -
  have nn: "0 \<le> f64_round (of_int n)" by (rule f64_round_nonneg) (use assms in simp)
  show ?thesis
  proof (cases "f64_round (of_int n) < 2 ^ 1024")
    case True
    with nn have "to_f64 (PyInt n) = Inr (Finite (f64_round (of_int n)))"
      by (simp add: to_f64_int)
    with True nn f64_of_real_sqrt [OF nn True] show ?thesis
      by (simp add: math_sqrt_def not_less)
  next
    case False
    then have "\<not> \<bar>f64_round (of_int n)\<bar> < 2 ^ 1024" by linarith
    then have "\<forall>f. to_f64 (PyInt n) \<noteq> Inr f" by (simp add: to_f64_int)
    then obtain e where e: "to_f64 (PyInt n) = Inl e" by (cases "to_f64 (PyInt n)") auto
    with to_f64_error [OF e] False show ?thesis by (simp add: math_sqrt_def)
  qed
qed

lemma to_f64_int_cases:
  "to_f64 (PyInt n) =
     (if \<bar>f64_round (of_int n)\<bar> < 2 ^ 1024 then Inr (Finite (f64_round (of_int n)))
      else Inl OverflowError)"
proof (cases "\<bar>f64_round (of_int n)\<bar> < 2 ^ 1024")
  case True
  then show ?thesis by (simp add: to_f64_int)
next
  case False
  then have "\<forall>f. to_f64 (PyInt n) \<noteq> Inr f" by (simp add: to_f64_int)
  then obtain e where e: "to_f64 (PyInt n) = Inl e" by (cases "to_f64 (PyInt n)") auto
  with to_f64_error [OF e] False show ?thesis by simp
qed

lemma cosine_sim_f64_int_value:
  fixes ks :: "'k list"
  assumes "int_weights a" "int_weights b"
  defines "D \<equiv> int_dot ks a b" and "A \<equiv> int_sq ks a" and "B \<equiv> int_sq ks b"
  shows "cosine_sim_f64 ks a b =
     (if A = 0 \<or> B = 0 then Inr (PyInt 0)
      else if f64_round (of_int A) < 2 ^ 1024 \<and> f64_round (of_int B) < 2 ^ 1024
              \<and> \<bar>f64_round (of_int D)\<bar> < 2 ^ 1024
           then Inr (PyFloat (int_quotient D A B))
           else Inl OverflowError)"
proof -
  have loop: "cosine_loop_f64 ks a b (PyInt 0, PyInt 0, PyInt 0) = Inr (PyInt D, PyInt A, PyInt B)"
    using cosine_loop_ints [OF assms(1,2), of ks 0 0 0] by (simp add: D_def A_def B_def)
  have A: "0 \<le> A" and B: "0 \<le> B" by (simp_all add: A_def B_def int_sq_nonneg)
  show ?thesis
  proof (cases "A = 0 \<or> B = 0")
    case True
    then show ?thesis by (auto simp: cosine_sim_f64_def loop)
  next
    case False
    have sq: "sq_acc (PyInt A)" "sq_acc (PyInt B)" using A B by (simp_all add: sq_acc_def)
    have u: "cosine_sim_f64 ks a b =
      py_then (math_sqrt (PyInt A)) (\<lambda>sa. py_then (math_sqrt (PyInt B)) (\<lambda>sb.
            py_then (num_mul sa sb) (\<lambda>d. num_div (PyInt D) d)))"
      using False by (simp add: cosine_sim_f64_def loop)
    show ?thesis
    proof (cases "f64_round (of_int A) < 2 ^ 1024 \<and> f64_round (of_int B) < 2 ^ 1024")
      case ab: True
      define sa where "sa = f64_round (sqrt (f64_round (of_int A)))"
      define sb where "sb = f64_round (sqrt (f64_round (of_int B)))"
      have ma: "math_sqrt (PyInt A) = Inr (PyFloat (Finite sa))"
        and mb: "math_sqrt (PyInt B) = Inr (PyFloat (Finite sb))"
        using ab by (simp_all add: math_sqrt_int [OF A] math_sqrt_int [OF B] sa_def sb_def)
      from math_sqrt_sq [OF sq(1)] math_sqrt_sq [OF sq(2)] False ma mb
      have "root_ok (Finite sa)" "root_ok (Finite sb)" by auto
      from f64_mul_roots [OF this] have ok: "div_ok (f64_of_real (sa * sb))" by simp
      have "cosine_sim_f64 ks a b =
          py_then (to_f64 (PyInt D)) (\<lambda>x. Inr (PyFloat (f64_div x (f64_of_real (sa * sb)))))"
        by (simp add: u ma mb num_div_ok [OF ok] del: num_div.simps)
      then show ?thesis using False ab
        by (simp add: to_f64_int_cases int_quotient_def sa_def sb_def)
    next
      case nab: False
      then show ?thesis using False
        by (auto simp: u math_sqrt_int [OF A] math_sqrt_int [OF B])
    qed
  qed
qed

lemma f64_round_cosine_bound: "f64_round cosine_bound = cosine_bound"
proof -
  have "\<bar>2 ^ 50 + 1 :: int\<bar> \<le> 2 ^ 53" by simp
  moreover have "- 1074 \<le> - int 50" by simp
  ultimately have "f64_round (of_int (2 ^ 50 + 1) * 2 powr of_int (- int 50))
      = of_int (2 ^ 50 + 1) * 2 powr of_int (- int 50)" by (rule f64_round_exact)
  moreover have "of_int (2 ^ 50 + 1) * 2 powr of_int (- int 50) = cosine_bound"
    unfolding two_powr_neg cosine_bound_def by (simp add: field_simps)
  ultimately show ?thesis by simp
qed

lemma int_quotient_bound:
  assumes A: "1 \<le> A" and B: "1 \<le> B" and D: "0 \<le> D"
    and cs: "(of_int D :: real)\<^sup>2 \<le> of_int A * of_int B"
  shows "\<exists>q. int_quotient D A B = Finite q \<and> 0 \<le> q \<and> q \<le> cosine_bound"
proof -
  define sa where "sa = f64_round (sqrt (f64_round (of_int A)))"
  define sb where "sb = f64_round (sqrt (f64_round (of_int B)))"
  define d1 where "d1 = f64_round (of_int D)"
  have A': "(1::real) \<le> of_int A" and B': "(1::real) \<le> of_int B" using A B by simp_all
  have D': "(of_int D :: real) = 0 \<or> 1 \<le> (of_int D :: real)"
  proof (cases "D = 0")
    case True then show ?thesis by simp
  next
    case False with D have "1 \<le> D" by simp
    then show ?thesis by simp
  qed
  note q = cosine_quotient_bound [OF A' B' D' cs, folded sa_def sb_def d1_def]
  have cb: "0 \<le> cosine_bound" "cosine_bound < 2 ^ 1024"
    by (simp_all add: cosine_bound_def)
  have ab: "0 \<le> sa * sb" using root_lower(2) [OF A'] root_lower(2) [OF B']
    by (simp add: sa_def sb_def)
  have "1 * 1 \<le> sa * sb"
    using root_lower(2) [OF A'] root_lower(2) [OF B'] unfolding sa_def sb_def
    by (intro mult_mono) simp_all
  then have "1 \<le> f64_round (sa * sb)" by (intro f64_round_ge_1) simp
  then have nz: "f64_round (sa * sb) \<noteq> 0" by simp
  have d0: "0 \<le> d1" unfolding d1_def by (rule f64_round_nonneg) (use D in simp)
  from f64_of_real_nonneg [OF ab]
  consider "f64_of_real (sa * sb) = Finite (f64_round (sa * sb))" | "f64_of_real (sa * sb) = PosInf"
    by auto
  then show ?thesis
  proof cases
    case 1
    from f64_round_le [OF q(2,3) f64_round_cosine_bound]
    have le: "f64_round (d1 / f64_round (sa * sb)) \<le> cosine_bound" .
    with cb have "f64_round (d1 / f64_round (sa * sb)) < 2 ^ 1024" by linarith
    with f64_of_real_nonneg [OF q(2)]
    have "f64_of_real (d1 / f64_round (sa * sb)) = Finite (f64_round (d1 / f64_round (sa * sb)))"
      "0 \<le> f64_round (d1 / f64_round (sa * sb))" by auto
    with le nz show ?thesis
      by (simp add: int_quotient_def 1 sa_def [symmetric] sb_def [symmetric] d1_def [symmetric])
  next
    case 2
    with cb show ?thesis
      by (simp add: int_quotient_def sa_def [symmetric] sb_def [symmetric])
  qed
qed

lemma cosine_sim_f64_int_range:
  assumes a: "\<forall>v\<in>snd ` set a. \<exists>n. v = PyInt n \<and> 0 \<le> n"
    and b: "\<forall>v\<in>snd ` set b. \<exists>n. v = PyInt n \<and> 0 \<le> n"
    and r: "cosine_sim_f64 ks a b = Inr r"
  shows "r = PyInt 0 \<or> (\<exists>q. r = PyFloat (Finite q) \<and> 0 \<le> q \<and> q \<le> cosine_bound)"
proof -
  have ia: "int_weights a" and ib: "int_weights b" using a b by (auto simp: int_weights_def)
  define D where "D = int_dot ks a b"
  define A where "A = int_sq ks a"
  define B where "B = int_sq ks b"
  have ga: "0 \<le> int_get a k" for k
  proof -
    have "\<exists>n. dict_get a k (PyInt 0) = PyInt n \<and> 0 \<le> n"
      by (rule dict_get_pred [OF a]) simp
    then show ?thesis by (auto simp: int_get_def)
  qed
  have gb: "0 \<le> int_get b k" for k
  proof -
    have "\<exists>n. dict_get b k (PyInt 0) = PyInt n \<and> 0 \<le> n"
      by (rule dict_get_pred [OF b]) simp
    then show ?thesis by (auto simp: int_get_def)
  qed
  have D: "0 \<le> D" unfolding D_def int_dot_def
    by (rule sum_list_nonneg) (auto intro!: mult_nonneg_nonneg ga gb)
  have A: "0 \<le> A" and B: "0 \<le> B" by (simp_all add: A_def B_def int_sq_nonneg)
  note v = cosine_sim_f64_int_value [OF ia ib, of ks, folded D_def A_def B_def]
  show ?thesis
  proof (cases "A = 0 \<or> B = 0")
    case True
    with v r show ?thesis by simp
  next
    case False
    with A B have "1 \<le> A" "1 \<le> B" by simp_all
    from int_quotient_bound [OF this D int_cauchy_schwarz [of ks a b, folded D_def A_def B_def]]
    obtain q where "int_quotient D A B = Finite q" "0 \<le> q" "q \<le> cosine_bound" by blast
    with v r False show ?thesis by (auto split: if_splits)
  qed
qed

lemma f64_exp_le:
  assumes "x \<noteq> 0" "\<bar>x\<bar> \<le> 2 ^ n"
  shows "f64_exp x \<le> int n"
proof -
  from assms(2) have "\<bar>x\<bar> \<le> 2 powr real n" by (simp add: powr_realpow)
  with assms(1) have "log 2 \<bar>x\<bar> \<le> real n" by (simp add: log_le_iff)
  then have "\<lfloor>log 2 \<bar>x\<bar>\<rfloor> \<le> int n" by (simp add: floor_le_iff)
  then show ?thesis by (simp add: f64_exp_def)
qed

lemma f64_round_abs_bound:
  assumes "\<bar>x\<bar> \<le> 2 ^ n"
  shows "\<bar>f64_round x\<bar> \<le> 2 ^ n + 2 ^ n / 2 ^ 53"
proof (cases "x = 0")
  case True
  then show ?thesis by (simp add: f64_round_0)
next
  case False
  from f64_exp_le [OF False assms] have "of_int (f64_exp x) - 53 \<le> real n - 53" by simp
  then have "(2::real) powr (of_int (f64_exp x) - 53) \<le> 2 powr (real n - 53)"
    by (intro powr_mono) auto
  also have "\<dots> = 2 ^ n / 2 ^ 53" by (simp add: powr_diff powr_realpow)
  finally have "\<bar>f64_round x - x\<bar> \<le> 2 ^ n / 2 ^ 53"
    using f64_round_abs_err [of x] by linarith
  with assms show ?thesis by linarith
qed

lemma cosine_quotient_abs_bound:
  fixes A B D :: real
  assumes A: "1 \<le> A" and B: "1 \<le> B" and D: "D = 0 \<or> 1 \<le> \<bar>D\<bar>" and cs: "D\<^sup>2 \<le> A * B"
  defines "sa \<equiv> f64_round (sqrt (f64_round A))" and "sb \<equiv> f64_round (sqrt (f64_round B))"
  defines "p \<equiv> f64_round (sa * sb)"
  shows "\<bar>f64_round D / p\<bar> \<le> cosine_bound"
proof -
  define t where "t = 1 - f64_eps"
  define S where "S = sqrt A * sqrt B"
  have t: "0 < t" "t \<le> 1" using f64_eps_bounds by (simp_all add: t_def)
  have S: "1 \<le> S" unfolding S_def using A B
    by (metis mult_mono' real_sqrt_ge_1_iff mult_1 zero_le_one)
  note ra = root_lower [OF A, folded sa_def t_def] and rb = root_lower [OF B, folded sb_def t_def]
  have ab: "1 \<le> sa * sb" using ra(2) rb(2) by (metis mult_mono' mult_1 zero_le_one)
  then have p1: "1 \<le> p" unfolding p_def by (rule f64_round_ge_1)
  have "sqrt A * t\<^sup>2 * (sqrt B * t\<^sup>2) \<le> sa * sb"
    by (rule mult_mono [OF ra(1) rb(1)]) (use ra(2) t A B in auto)
  then have "S * t ^ 4 \<le> sa * sb" by (simp add: S_def power2_eq_square algebra_simps eval_nat_numeral)
  then have "S * t ^ 4 * t \<le> sa * sb * t" using t by (intro mult_right_mono) auto
  also have "\<dots> \<le> p" unfolding p_def t_def by (rule f64_round_rel_lower) (use ab in linarith)
  finally have pl: "S * t ^ 5 \<le> p" by (simp add: eval_nat_numeral mult.assoc)
  have "\<bar>D\<bar>\<^sup>2 \<le> A * B" using cs by simp
  then have "\<bar>D\<bar> \<le> sqrt (A * B)" by (rule real_le_rsqrt)
  then have DS: "\<bar>D\<bar> \<le> S" by (simp add: S_def real_sqrt_mult)
  have du: "\<bar>f64_round D\<bar> \<le> S * (1 + f64_eps)"
  proof (cases "D = 0")
    case True
    then show ?thesis using S f64_eps_bounds by (simp add: f64_round_0)
  next
    case False
    with D have d1: "1 \<le> \<bar>D\<bar>" by simp
    have "(2::real) powr (- 1022) \<le> 2 powr 0" by (intro powr_mono) auto
    with d1 have "2 powr (- 1022) \<le> \<bar>D\<bar>" by simp
    from f64_round_rel [OF this] have "\<bar>f64_round D - D\<bar> \<le> \<bar>D\<bar> * f64_eps"
      by (simp add: f64_eps_def)
    then have "\<bar>f64_round D\<bar> \<le> \<bar>D\<bar> * (1 + f64_eps)" by (simp add: algebra_simps)
    also have "\<dots> \<le> S * (1 + f64_eps)" using DS f64_eps_bounds by (intro mult_right_mono) auto
    finally show ?thesis .
  qed
  have st: "0 < S * t ^ 5" using S t by simp
  have "\<bar>f64_round D\<bar> / p \<le> (S * (1 + f64_eps)) / (S * t ^ 5)"
    by (rule frac_le [OF _ du st pl]) (use S f64_eps_bounds in simp)
  also have "\<dots> = (1 + f64_eps) / t ^ 5" using S by simp
  also have "\<dots> \<le> 1 + 8 * f64_eps"
  proof -
    from eps_poly [of f64_eps] f64_eps_bounds
    have "1 + f64_eps \<le> (1 + 8 * f64_eps) * t ^ 5" by (simp add: t_def)
    then show ?thesis using t by (simp add: pos_divide_le_eq)
  qed
  also have "\<dots> = cosine_bound" by (simp add: f64_eps_def cosine_bound_def)
  finally have "\<bar>f64_round D\<bar> / p \<le> cosine_bound" .
  moreover have "\<bar>p\<bar> = p" using p1 by simp
  then have "\<bar>f64_round D / p\<bar> = \<bar>f64_round D\<bar> / p" by (simp only: abs_divide)
  ultimately show ?thesis by (simp only:)
qed

lemma int_quotient_finite:
  assumes A: "1 \<le> A" and B: "1 \<le> B"
    and cs: "(of_int D :: real)\<^sup>2 \<le> of_int A * of_int B"
  shows "\<exists>q. int_quotient D A B = Finite q \<and> f64_round q = q"
proof -
  define sa where "sa = f64_round (sqrt (f64_round (of_int A)))"
  define sb where "sb = f64_round (sqrt (f64_round (of_int B)))"
  define d1 where "d1 = f64_round (of_int D)"
  have A': "(1::real) \<le> of_int A" and B': "(1::real) \<le> of_int B" using A B by simp_all
  have D': "(of_int D :: real) = 0 \<or> 1 \<le> \<bar>of_int D :: real\<bar>"
  proof (cases "D = 0")
    case True then show ?thesis by simp
  next
    case False then have "1 \<le> \<bar>D\<bar>" by simp
    then have "(1::real) \<le> of_int \<bar>D\<bar>" by (simp only: of_int_1_le_iff)
    then show ?thesis by simp
  qed
  note q = cosine_quotient_abs_bound [OF A' B' D' cs, folded sa_def sb_def d1_def]
  have ab: "0 \<le> sa * sb" using root_lower(2) [OF A'] root_lower(2) [OF B']
    by (simp add: sa_def sb_def)
  have "1 * 1 \<le> sa * sb"
    using root_lower(2) [OF A'] root_lower(2) [OF B'] unfolding sa_def sb_def
    by (intro mult_mono) simp_all
  then have "1 \<le> f64_round (sa * sb)" by (intro f64_round_ge_1) simp
  then have nz: "f64_round (sa * sb) \<noteq> 0" by simp
  from f64_of_real_nonneg [OF ab]
  consider "f64_of_real (sa * sb) = Finite (f64_round (sa * sb))" | "f64_of_real (sa * sb) = PosInf"
    by auto
  then show ?thesis
  proof cases
    case 1
    have "cosine_bound \<le> 2 ^ 1" by (simp add: cosine_bound_def)
    with q have "\<bar>d1 / f64_round (sa * sb)\<bar> \<le> 2 ^ 1" by linarith
    from f64_round_abs_bound [OF this]
    have "\<bar>f64_round (d1 / f64_round (sa * sb))\<bar> < 2 ^ 1024" by simp
    then have "f64_of_real (d1 / f64_round (sa * sb)) = Finite (f64_round (d1 / f64_round (sa * sb)))"
      by (rule f64_of_real_finite)
    with nz show ?thesis
      by (simp add: int_quotient_def 1 sa_def [symmetric] sb_def [symmetric] d1_def [symmetric]
          f64_round_idem)
  next
    case 2
    then show ?thesis
      by (simp add: int_quotient_def sa_def [symmetric] sb_def [symmetric] f64_round_0)
  qed
qed

lemma cosine_sim_f64_int_result:
  assumes ia: "int_weights a" and ib: "int_weights b" and r: "cosine_sim_f64 ks a b = Inr r"
  shows "r = PyInt 0 \<or> (\<exists>q. r = PyFloat (Finite q) \<and> f64_round q = q)"
    and "r \<noteq> PyInt 0 \<Longrightarrow> f64_round (of_int (int_sq ks b)) < 2 ^ 1024"
proof -
  define D where "D = int_dot ks a b"
  define A where "A = int_sq ks a"
  define B where "B = int_sq ks b"
  have A: "0 \<le> A" and B: "0 \<le> B" by (simp_all add: A_def B_def int_sq_nonneg)
  note v = cosine_sim_f64_int_value [OF ia ib, of ks, folded D_def A_def B_def]
  show "r = PyInt 0 \<or> (\<exists>q. r = PyFloat (Finite q) \<and> f64_round q = q)"
  proof (cases "A = 0 \<or> B = 0")
    case True
    with v r show ?thesis by simp
  next
    case False
    with A B have "1 \<le> A" "1 \<le> B" by simp_all
    from int_quotient_finite [OF this int_cauchy_schwarz [of ks a b, folded D_def A_def B_def]]
    obtain q where "int_quotient D A B = Finite q" "f64_round q = q" by blast
    with v r False show ?thesis by (auto split: if_splits)
  qed
  show "f64_round (of_int (int_sq ks b)) < 2 ^ 1024" if "r \<noteq> PyInt 0"
    using v r that by (auto simp: B_def split: if_splits)
qed

lemma int_sq_zero:
  assumes i: "int_weights a" and z: "\<forall>v\<in>snd ` set a. num_eq0 v"
  shows "int_sq ks a = 0"
proof -
  have "int_get a k = 0" for k
  proof -
    have "num_eq0 (dict_get a k (PyInt 0))" by (rule dict_get_pred) (use z in auto)
    then show ?thesis by (simp add: int_weights_get [OF i])
  qed
  then show ?thesis by (simp add: int_sq_def)
qed

lemma cosine_sim_f64_int_zero:
  assumes "int_weights a" "int_weights b"
    and "(\<forall>v\<in>snd ` set a. num_eq0 v) \<or> (\<forall>v\<in>snd ` set b. num_eq0 v)"
  shows "cosine_sim_f64 ks a b = Inr (PyInt 0)"
  using assms(3) int_sq_zero [OF assms(1), of ks] int_sq_zero [OF assms(2), of ks]
  by (auto simp: cosine_sim_f64_int_value [OF assms(1,2)])

lemma num_nonneg_nn: "num_nonneg v \<Longrightarrow> nonneg_or_nan v"
  by (simp add: nonneg_or_nan_def)

subsection \<open>Four evaluations\<close>

lemma f64_round_eq:
  fixes x :: real
  assumes "2 powr of_int e \<le> x" "x < 2 powr (of_int e + 1)" "- 1022 \<le> e"
    and "\<bar>x / 2 powr (of_int e - 52) - of_int n\<bar> < 1 / 2"
  shows "f64_round x = of_int n * 2 powr (of_int e - 52)"
proof -
  have "(0::real) < 2 powr of_int e" by simp
  with assms(1) have "0 < x" by linarith
  with assms(1,2) have "2 powr of_int e \<le> \<bar>x\<bar>" "\<bar>x\<bar> < 2 powr (of_int e + 1)" by simp_all
  from f64_exp_eq [OF this assms(3)] have "f64_exp x = e" .
  from f64_round_eqI [OF this assms(4)] show ?thesis .
qed

lemma f64_of_real_eq: "f64_round x = y \<Longrightarrow> \<bar>y\<bar> < 2 ^ 1024 \<Longrightarrow> f64_of_real x = Finite y"
  by (auto simp: f64_of_real_def Let_def)

lemma f64_round_int: "\<bar>m\<bar> \<le> 2 ^ 53 \<Longrightarrow> f64_round (of_int m) = of_int m"
  using f64_round_exact [of m 0] by simp

lemma f64_round_dyadic:
  assumes "\<bar>m\<bar> \<le> 2 ^ 53" "n \<le> 1074"
  shows "f64_round (of_int m / 2 ^ n) = of_int m / 2 ^ n"
proof -
  have "- 1074 \<le> - int n" using assms(2) by simp
  from f64_round_exact [OF assms(1) this] show ?thesis
    unfolding two_powr_neg by simp
qed

lemma f64_round_3: "f64_round 3 = 3"
  using f64_round_int [of 3] by simp

lemma f64_sqrt_3: "f64_round (sqrt 3) = 7800463371553962 / 2 ^ 52"
proof -
  define t where "t = sqrt 3 * 2 ^ 52"
  have "(15600926743107923 / 2 ^ 53)\<^sup>2 < (3::real)"
    by (simp add: power2_eq_square field_simps)
  then have "15600926743107923 / 2 ^ 53 < sqrt 3" by (rule real_less_rsqrt)
  then have lo: "7800463371553962 - 1 / 2 < t" by (simp add: t_def field_simps)
  have "(3::real) < (15600926743107925 / 2 ^ 53)\<^sup>2"
    by (simp add: power2_eq_square field_simps)
  then have "sqrt 3 < 15600926743107925 / 2 ^ 53" by (intro real_less_lsqrt) simp_all
  then have hi: "t < 7800463371553962 + 1 / 2" by (simp add: t_def field_simps)
  have t: "sqrt 3 = t / 2 ^ 52" by (simp add: t_def)
  have 1: "2 powr of_int 0 \<le> sqrt 3" unfolding t using lo by (simp add: field_simps)
  have 2: "sqrt 3 < 2 powr (of_int 0 + 1)" unfolding t using hi by (simp add: field_simps)
  have "\<bar>t - 7800463371553962\<bar> < 1 / 2" using lo hi by linarith
  then have 3: "\<bar>sqrt 3 / 2 powr (of_int 0 - 52) - of_int 7800463371553962\<bar> < 1 / 2"
    unfolding t by (simp add: powr_minus powr_numeral)
  from f64_round_eq [OF 1 2 _ 3] show ?thesis
    by (simp add: powr_minus powr_numeral field_simps)
qed

lemma f64_square:
  "f64_round (7800463371553962 / 2 ^ 52 * (7800463371553962 / 2 ^ 52)) = 6755399441055743 / 2 ^ 51"
  using f64_round_eq [of 1 "7800463371553962 / 2 ^ 52 * (7800463371553962 / 2 ^ 52)" 6755399441055743]
  by (simp add: powr_minus powr_numeral field_simps abs_less_iff)

lemma f64_quotient:
  "f64_round (3 / (6755399441055743 / 2 ^ 51)) = 4503599627370497 / 2 ^ 52"
  using f64_round_eq [of 0 "3 / (6755399441055743 / 2 ^ 51)" 4503599627370497]
  by (simp add: powr_minus powr_numeral field_simps abs_less_iff)

lemma ones_example:
  "cosine_sim_f64 [1, 2, 3] [(1::int, PyInt 1), (2, PyInt 1), (3, PyInt 1)]
       [(1, PyInt 1), (2, PyInt 1), (3, PyInt 1)]
     = Inr (PyFloat (Finite (4503599627370497 / 2 ^ 52)))"
proof -
  let ?a = "[(1::int, PyInt 1), (2, PyInt 1), (3, PyInt 1)]"
  have iw: "int_weights ?a" by (simp add: int_weights_def)
  have s: "int_dot [1, 2, 3] ?a ?a = 3" "int_sq [1, 2, 3] ?a = 3"
    by (simp_all add: int_dot_def int_sq_def int_get_def dict_get_def)
  define s :: real where "s = 7800463371553962 / 2 ^ 52"
  define p :: real where "p = 6755399441055743 / 2 ^ 51"
  define q :: real where "q = 4503599627370497 / 2 ^ 52"
  have rs: "f64_round (sqrt 3) = s" unfolding s_def by (rule f64_sqrt_3)
  have rp: "f64_round (s * s) = p" unfolding s_def p_def by (rule f64_square)
  have rq: "f64_round (3 / p) = q" unfolding p_def q_def by (rule f64_quotient)
  have "\<bar>p\<bar> < 2 ^ 1024" by (simp add: p_def)
  then have fp: "f64_of_real (s * s) = Finite p" by (rule f64_of_real_eq [OF rp])
  have "\<bar>q\<bar> < 2 ^ 1024" by (simp add: q_def)
  then have fq: "f64_of_real (3 / p) = Finite q" by (rule f64_of_real_eq [OF rq])
  have "p \<noteq> 0" by (simp add: p_def)
  then have q: "int_quotient 3 3 3 = Finite (4503599627370497 / 2 ^ 52)"
    unfolding int_quotient_def by (simp add: f64_round_3 rs fp fq) (simp add: q_def)
  show ?thesis
    unfolding cosine_sim_f64_int_value [OF iw iw] s by (simp add: f64_round_3 q)
qed

lemma f64_of_real_posinf: "f64_round x = y \<Longrightarrow> 2 ^ 1024 \<le> y \<Longrightarrow> f64_of_real x = PosInf"
  by (auto simp: f64_of_real_def Let_def)

lemma overflow_example:
  "cosine_sim_f64 [1] [(1::int, PyInt (2 ^ 512))] [(1, PyInt (2 ^ 512))] = Inl OverflowError"
proof -
  let ?a = "[(1::int, PyInt (2 ^ 512))]"
  define A :: int where "A = 2 ^ 1024"
  have iw: "int_weights ?a" by (simp add: int_weights_def)
  have s: "int_dot [1] ?a ?a = A" "int_sq [1] ?a = A"
    by (simp_all add: int_dot_def int_sq_def int_get_def dict_get_def A_def)
  have "(of_int A :: real) = 2 ^ 1024" by (simp add: A_def)
  then have "f64_round (of_int A) = 2 ^ 1024" by (simp only: f64_round_power2)
  then have big: "\<not> f64_round (of_int A) < 2 ^ 1024" by (simp only:)
  have nz: "A \<noteq> 0" by (simp add: A_def)
  show ?thesis
    unfolding cosine_sim_f64_int_value [OF iw iw] s using big nz by simp
qed

lemma nan_example:
  "cosine_sim_f64 [1] [(1::int, PyFloat (Finite (2 ^ 600)))] [(1, PyFloat (Finite (2 ^ 600)))]
     = Inr (PyFloat NaN)"
proof -
  define x :: real where "x = 2 ^ 600"
  have "x * x = 2 ^ 1200" by (simp add: x_def power_add [symmetric])
  then have "f64_round (x * x) = 2 ^ 1200" by (simp only: f64_round_power2)
  moreover have "(2 :: real) ^ 1024 \<le> 2 ^ 1200" by simp
  ultimately have sq: "f64_of_real (x * x) = PosInf" by (rule f64_of_real_posinf)
  have "cosine_sim_f64 [1] [(1::int, PyFloat (Finite x))] [(1, PyFloat (Finite x))] = Inr (PyFloat NaN)"
    by (simp add: cosine_sim_f64_def cosine_step_def dict_get_def sq math_sqrt_def)
  then show ?thesis by (simp only: x_def)
qed

lemma f64_round_zero_below:
  assumes "0 \<le> x" "x < 1 / 2 ^ 1075"
  shows "f64_round x = 0"
proof (cases "x = 0")
  case True
  then show ?thesis by (simp add: f64_round_0)
next
  case False
  have "(1 :: real) / 2 ^ 1075 \<le> 1 / 2 ^ 1021" by (simp add: field_simps)
  with assms have "\<bar>x\<bar> < 2 powr (- 1021)" by (simp add: powr_minus_divide)
  from f64_exp_subnormal [OF False this] have e: "f64_exp x = - 1022" .
  have u: "(2::real) powr (of_int (- 1022) - 52) = 1 / 2 ^ 1074"
    using two_powr_neg [of 1074] by simp
  have "x / (1 / 2 ^ 1074) < 1 / 2" using assms(2) by (simp add: field_simps)
  moreover have "0 \<le> x / (1 / 2 ^ 1074)" using assms(1) by simp
  ultimately have "\<bar>x / 2 powr (of_int (- 1022) - 52) - of_int 0\<bar> < 1 / 2"
    unfolding u by simp
  from f64_round_eqI [OF e this] show ?thesis by simp
qed

lemma underflow_example:
  "cosine_sim_f64 [1, 2, 3, 4, 5]
     [(1::int, PyFloat (Finite (5 / 2 ^ 540))), (2, PyFloat (Finite (5 / 2 ^ 540))),
      (3, PyFloat (Finite (5 / 2 ^ 540))), (4, PyFloat (Finite (5 / 2 ^ 540))),
      (5, PyFloat (Finite (1 / 2 ^ 537)))]
     [(1, PyFloat (Finite 1)), (2, PyFloat (Finite 1)), (3, PyFloat (Finite 1)),
      (4, PyFloat (Finite 1))]
   = Inr (PyFloat (Finite (5 / 4)))"
proof -
  define x :: real where "x = 5 / 2 ^ 540"
  define y :: real where "y = 1 / 2 ^ 537"
  define z :: real where "z = 1 / 2 ^ 1074"
  have xpos: "0 < x" and ypos: "0 < y" by (simp_all add: x_def y_def)
  have small: "\<bar>c\<bar> \<le> 4 \<Longrightarrow> \<bar>c * x\<bar> < 2 ^ 1024" for c
  proof -
    assume "\<bar>c\<bar> \<le> 4"
    moreover have "x \<le> 1" by (simp add: x_def field_simps)
    ultimately have "\<bar>c\<bar> * x \<le> 4 * 1" using xpos by (intro mult_mono) auto
    moreover have "\<bar>c * x\<bar> = \<bar>c\<bar> * x" using xpos by (simp add: abs_mult)
    ultimately show ?thesis by simp
  qed
  have rx: "f64_round (of_int m * x) = of_int m * x" if "\<bar>m\<bar> \<le> 4" for m
  proof -
    have "\<bar>m * 5\<bar> \<le> 2 ^ 53" using that by simp
    from f64_round_dyadic [OF this, of 540] show ?thesis by (simp add: x_def)
  qed
  have fx: "f64_of_real x = Finite x" "f64_of_real (2 * x) = Finite (2 * x)"
    "f64_of_real (3 * x) = Finite (3 * x)" "f64_of_real (4 * x) = Finite (4 * x)"
    using rx [of 1] rx [of 2] rx [of 3] rx [of 4] small [of 1] small [of 2] small [of 3] small [of 4]
    by (simp_all add: f64_of_real_eq)
  have "x * x < 1 / 2 ^ 1075" by (simp add: x_def field_simps)
  with xpos have "f64_round (x * x) = 0" by (intro f64_round_zero_below) auto
  then have fxx: "f64_of_real (x * x) = Finite 0" by (rule f64_of_real_eq) simp
  have fn: "f64_of_real 1 = Finite 1" "f64_of_real 2 = Finite 2" "f64_of_real 3 = Finite 3"
    "f64_of_real 4 = Finite 4"
    using f64_round_int [of 1] f64_round_int [of 2] f64_round_int [of 3] f64_round_int [of 4]
    by (simp_all add: f64_of_real_eq)
  have yy: "y * y = z" by (simp add: y_def z_def power_add [symmetric])
  have "f64_round z = z" using f64_round_dyadic [of 1 1074] by (simp add: z_def)
  moreover have "\<bar>z\<bar> < 2 ^ 1024" by (simp add: z_def field_simps)
  ultimately have fz: "f64_of_real z = Finite z" by (rule f64_of_real_eq)
  have zpos: "0 < z" by (simp add: z_def)
  have "sqrt z = y" unfolding yy [symmetric] using ypos by simp
  moreover have "f64_round y = y" using f64_round_dyadic [of 1 537] by (simp add: y_def)
  moreover have "\<bar>y\<bar> < 2 ^ 1024" by (simp add: y_def field_simps)
  ultimately have fs: "f64_of_real (sqrt z) = Finite y" by (simp add: f64_of_real_eq)
  have "f64_round (2 * y) = 2 * y" using f64_round_dyadic [of 2 537] by (simp add: y_def)
  moreover have "\<bar>2 * y\<bar> < 2 ^ 1024" by (simp add: y_def field_simps)
  ultimately have f2y: "f64_of_real (2 * y) = Finite (2 * y)" "f64_of_real (y * 2) = Finite (2 * y)"
    by (simp_all add: f64_of_real_eq mult.commute)
  have quot: "4 * x / (2 * y) = 5 / 4" by (simp add: x_def y_def field_simps)
  have "f64_round (5 / 4) = 5 / 4" using f64_round_dyadic [of 5 2] by simp
  then have fq: "f64_of_real (5 / 4) = Finite (5 / 4)" by (rule f64_of_real_eq) simp
  have "cosine_sim_f64 [1, 2, 3, 4, 5]
     [(1::int, PyFloat (Finite x)), (2, PyFloat (Finite x)),
      (3, PyFloat (Finite x)), (4, PyFloat (Finite x)), (5, PyFloat (Finite y))]
     [(1, PyFloat (Finite 1)), (2, PyFloat (Finite 1)), (3, PyFloat (Finite 1)),
      (4, PyFloat (Finite 1))]
   = Inr (PyFloat (Finite (5 / 4)))"
    using zpos ypos
    by (simp add: cosine_sim_f64_def cosine_step_def dict_get_def math_sqrt_def
        fx fxx fn yy fz fs f2y quot fq)
  then show ?thesis by (simp only: x_def y_def)
qed




section \<open>The vectorizer\<close>

lemma count_up_get: "dict_get (count_up ts d) t 0 = dict_get d t 0 + count_list ts t"
  by (induction ts arbitrary: d) (auto simp: dict_get_dict_set)

lemma count_up_keys: "set (dict_keys (count_up ts d)) = set (dict_keys d) \<union> set ts"
  by (induction ts arbitrary: d) (auto simp: dict_keys_dict_set)

lemma count_up_is_dict: "is_dict d \<Longrightarrow> is_dict (count_up ts d)"
  by (induction ts arbitrary: d) (auto simp: is_dict_dict_set)

lemma count_list_distinct: "distinct ts \<Longrightarrow> count_list ts t = (if t \<in> set ts then 1 else 0)"
  by (induction ts) auto

lemma df_loop_get: "dict_get (df_loop ms df) t 0 = dict_get df t 0 + df_count ms t"
  by (induction ms arbitrary: df) (auto simp: count_up_get count_list_distinct df_count_def)

lemma df_loop_keys:
  "set (dict_keys (df_loop ms df)) = set (dict_keys df) \<union> (\<Union>m\<in>set ms. set (tokens_of m))"
  by (induction ms arbitrary: df) (auto simp: count_up_keys)

lemma df_loop_is_dict: "is_dict df \<Longrightarrow> is_dict (df_loop ms df)"
  by (induction ms arbitrary: df) (auto simp: count_up_is_dict)

lemma df_entry:
  assumes "(t, dfi) \<in> set (df_loop movies [])"
  shows "dfi = df_count movies t"
proof -
  from is_dict_lookup [OF df_loop_is_dict [OF is_dict_Nil] assms]
  have "dict_get (df_loop movies []) t 0 = dfi" .
  then show ?thesis by (simp add: df_loop_get dict_get_Nil)
qed

lemma df_count_le: "df_count movies t \<le> length movies"
  by (simp add: df_count_def)

lemma idf_formula_ge_1: "1 \<le> ln (real (length movies + 1) / real (df_count movies t + 1)) + 1"
proof -
  have "real (df_count movies t + 1) \<le> real (length movies + 1)"
    using df_count_le [of movies t] by simp
  then have "1 \<le> real (length movies + 1) / real (df_count movies t + 1)"
    by (simp add: le_divide_eq)
  then have "0 \<le> ln (real (length movies + 1) / real (df_count movies t + 1))"
    by (rule ln_ge_zero)
  then show ?thesis by simp
qed

lemma idf_formula_pos: "0 < ln (real (length movies + 1) / real (df_count movies t + 1)) + 1"
  using idf_formula_ge_1 [of movies t] by linarith

lemma idf_entry:
  assumes "(t, w) \<in> set (idf_of movies)"
  shows "w = ln (real (length movies + 1) / real (df_count movies t + 1)) + 1"
proof -
  from assms obtain dfi where "(t, dfi) \<in> set (df_loop movies [])"
    and w: "w = ln (real (length movies + 1) / real (dfi + 1)) + 1"
    by (auto simp: idf_of_def)
  from df_entry [OF this(1)] w show ?thesis by simp
qed

lemma idf_keys: "set (dict_keys (idf_of movies)) = (\<Union>m\<in>set movies. set (tokens_of m))"
proof -
  have "dict_keys (idf_of movies) = dict_keys (df_loop movies [])"
    by (simp add: idf_of_def dict_keys_def comp_def case_prod_unfold)
  then show ?thesis by (simp add: df_loop_keys dict_keys_Nil)
qed

lemma idf_is_dict: "is_dict (idf_of movies)"
proof -
  have "dict_keys (idf_of movies) = dict_keys (df_loop movies [])"
    by (simp add: idf_of_def dict_keys_def comp_def case_prod_unfold)
  then show ?thesis using df_loop_is_dict [OF is_dict_Nil, of movies] by (simp add: is_dict_def)
qed

lemma idf_get:
  assumes "m \<in> set movies" "t \<in> set (tokens_of m)"
  shows "dict_get (idf_of movies) t 0 = ln (real (length movies + 1) / real (df_count movies t + 1)) + 1"
proof -
  from assms have "t \<in> set (dict_keys (idf_of movies))" by (auto simp: idf_keys)
  then obtain w where w: "(t, w) \<in> set (idf_of movies)" using dict_keys_entry by fastforce
  from is_dict_lookup [OF idf_is_dict w] idf_entry [OF w] show ?thesis by simp
qed

lemma tfidf_vec_entry:
  assumes "(t, w) \<in> set (tfidf_vec idf tokens)"
  shows "t \<in> set tokens \<and> w = real (count_list tokens t) * dict_get idf t 0"
proof -
  from assms obtain c where c: "(t, c) \<in> set (count_up tokens [])"
    and w: "w = real c * dict_get idf t 0" by (auto simp: tfidf_vec_def)
  from c have "t \<in> set (dict_keys (count_up tokens []))" by (rule in_dict_keys)
  then have t: "t \<in> set tokens" by (simp add: count_up_keys dict_keys_Nil)
  from is_dict_lookup [OF count_up_is_dict [OF is_dict_Nil] c]
  have "dict_get (count_up tokens []) t 0 = c" .
  then have "c = count_list tokens t" by (simp add: count_up_get dict_get_Nil)
  with t w show ?thesis by simp
qed

lemma tfidf_vec_is_dict: "is_dict (tfidf_vec idf tokens)"
proof -
  have "dict_keys (tfidf_vec idf tokens) = dict_keys (count_up tokens [])"
    by (simp add: tfidf_vec_def dict_keys_def comp_def case_prod_unfold)
  then show ?thesis using count_up_is_dict [OF is_dict_Nil, of tokens] by (simp add: is_dict_def)
qed

lemma vectors_loop_entry:
  assumes "(mid, vec) \<in> set (vectors_loop docs idf vectors)"
  shows "(mid, vec) \<in> set vectors
       \<or> (\<exists>tokens. (mid, tokens) \<in> set docs \<and> vec = tfidf_vec idf tokens)"
  using assms
proof (induction docs arbitrary: vectors)
  case Nil
  then show ?case by simp
next
  case (Cons d docs)
  obtain mid' tokens where d: "d = (mid', tokens)" by (cases d)
  from Cons.IH [of "dict_set mid' (tfidf_vec idf tokens) vectors"] Cons.prems
  consider "(mid, vec) \<in> set (dict_set mid' (tfidf_vec idf tokens) vectors)"
    | "\<exists>tokens. (mid, tokens) \<in> set docs \<and> vec = tfidf_vec idf tokens"
    by (auto simp: d)
  then show ?case
  proof cases
    case 1
    with set_dict_set_subset [of mid' "tfidf_vec idf tokens" vectors]
    have "(mid, vec) = (mid', tfidf_vec idf tokens) \<or> (mid, vec) \<in> set vectors" by auto
    then show ?thesis by (auto simp: d)
  next
    case 2
    then show ?thesis by auto
  qed
qed

lemma build_tfidf_entry:
  assumes "(mid, vec) \<in> set (build_tfidf movies)"
  shows "\<exists>m\<in>set movies. movie_id m = mid \<and> vec = tfidf_vec (idf_of movies) (tokens_of m)"
  using vectors_loop_entry [OF assms [unfolded build_tfidf_def]]
  by (auto simp: docs_of_def)

text \<open>
  C7. For every catalog, the inverse document frequency the vectorizer gives a term is
  \<open>ln ((N + 1) / (df + 1)) + 1\<close>, where \<open>N\<close> is the size of the catalog and \<open>df\<close>
  the number of items whose token set has the term; it is strictly positive (at least 1,
  since \<open>df \<le> N\<close>). Every vector of the result is the vector of an item of the
  catalog, and each of its weights is the term's count in the item's token list times
  the term's inverse document frequency, hence not negative.
\<close>

theorem tfidf_weights_nonneg:
  "(\<forall>(t, w)\<in>set (idf_of movies).
      w = ln (real (length movies + 1) / real (df_count movies t + 1)) + 1 \<and> 0 < w)
   \<and> (\<forall>(mid, vec)\<in>set (build_tfidf movies).
        \<exists>m\<in>set movies. movie_id m = mid \<and> vec = tfidf_vec (idf_of movies) (tokens_of m)
          \<and> (\<forall>(t, w)\<in>set vec.
                w = real (count_list (tokens_of m) t)
                      * (ln (real (length movies + 1) / real (df_count movies t + 1)) + 1)
                \<and> 0 \<le> w))"
proof (intro conjI ballI)
  fix x assume a: "x \<in> set (idf_of movies)"
  obtain t w where x: "x = (t, w)" by (cases x)
  have "w = ln (real (length movies + 1) / real (df_count movies t + 1)) + 1"
    by (rule idf_entry [OF a [unfolded x]])
  moreover have "0 < ln (real (length movies + 1) / real (df_count movies t + 1)) + 1"
    by (rule idf_formula_pos)
  ultimately show "case x of (t, w) \<Rightarrow>
      w = ln (real (length movies + 1) / real (df_count movies t + 1)) + 1 \<and> 0 < w"
    unfolding x prod.case by blast
next
  fix x assume a: "x \<in> set (build_tfidf movies)"
  obtain mid vec where x: "x = (mid, vec)" by (cases x)
  from build_tfidf_entry [OF a [unfolded x]] obtain m where m: "m \<in> set movies" "movie_id m = mid"
    and vec: "vec = tfidf_vec (idf_of movies) (tokens_of m)" by blast
  have "\<forall>(t, w)\<in>set vec.
                w = real (count_list (tokens_of m) t)
                      * (ln (real (length movies + 1) / real (df_count movies t + 1)) + 1)
                \<and> 0 \<le> w"
  proof (intro ballI)
    fix y assume b: "y \<in> set vec"
    obtain t w where y: "y = (t, w)" by (cases y)
    from tfidf_vec_entry [OF b [unfolded y vec]]
    have t: "t \<in> set (tokens_of m)"
      and w: "w = real (count_list (tokens_of m) t) * dict_get (idf_of movies) t 0" by simp_all
    from w idf_get [OF m(1) t]
    have w': "w = real (count_list (tokens_of m) t)
                      * (ln (real (length movies + 1) / real (df_count movies t + 1)) + 1)"
      by simp
    have "0 \<le> ln (real (length movies + 1) / real (df_count movies t + 1)) + 1"
      using idf_formula_ge_1 [of movies t] by linarith
    then have "0 \<le> w" unfolding w' by (rule mult_nonneg_nonneg [OF of_nat_0_le_iff])
    with w' show "case y of (t, w) \<Rightarrow>
                w = real (count_list (tokens_of m) t)
                      * (ln (real (length movies + 1) / real (df_count movies t + 1)) + 1)
                \<and> 0 \<le> w" unfolding y prod.case by blast
  qed
  with m vec show "case x of (mid, vec) \<Rightarrow>
        \<exists>m\<in>set movies. movie_id m = mid \<and> vec = tfidf_vec (idf_of movies) (tokens_of m)
          \<and> (\<forall>(t, w)\<in>set vec.
                w = real (count_list (tokens_of m) t)
                      * (ln (real (length movies + 1) / real (df_count movies t + 1)) + 1)
                \<and> 0 \<le> w)"
    unfolding x by blast
qed

lemma docs_MOVIES: "docs_of MOVIES =
    [(1, [''action'', ''sci-fi'', ''thriller'', ''dream'', ''heist'', ''mind-bending'', ''nolan'']),
     (2, [''action'', ''crime'', ''drama'', ''batman'', ''joker'', ''nolan'']),
     (3, [''adventure'', ''drama'', ''sci-fi'', ''space'', ''time'', ''nolan'', ''wormhole'']),
     (4, [''action'', ''sci-fi'', ''simulation'', ''kung fu'', ''ai'']),
     (5, [''drama'', ''thriller'', ''class'', ''korean'', ''academy awards''])]"
  by code_simp

lemma df_MOVIES: "df_loop MOVIES [] =
      [(''action'', 3), (''sci-fi'', 3), (''thriller'', 2), (''dream'', 1),
       (''heist'', 1), (''mind-bending'', 1), (''nolan'', 3),
       (''crime'', 1), (''drama'', 3), (''batman'', 1), (''joker'', 1),
       (''adventure'', 1), (''space'', 1), (''time'', 1), (''wormhole'', 1),
       (''simulation'', 1), (''kung fu'', 1), (''ai'', 1), (''class'', 1),
       (''korean'', 1), (''academy awards'', 1)]"
  by code_simp

lemma length_MOVIES: "length MOVIES = 5"
  by code_simp

lemma idf_MOVIES: "idf_of MOVIES =
       [(''action'', ln (3 / 2) + 1), (''sci-fi'', ln (3 / 2) + 1),
        (''thriller'', ln 2 + 1), (''dream'', ln 3 + 1),
        (''heist'', ln 3 + 1), (''mind-bending'', ln 3 + 1),
        (''nolan'', ln (3 / 2) + 1), (''crime'', ln 3 + 1),
        (''drama'', ln (3 / 2) + 1), (''batman'', ln 3 + 1),
        (''joker'', ln 3 + 1), (''adventure'', ln 3 + 1),
        (''space'', ln 3 + 1), (''time'', ln 3 + 1),
        (''wormhole'', ln 3 + 1), (''simulation'', ln 3 + 1),
        (''kung fu'', ln 3 + 1), (''ai'', ln 3 + 1), (''class'', ln 3 + 1),
        (''korean'', ln 3 + 1), (''academy awards'', ln 3 + 1)]"
  unfolding idf_of_def df_MOVIES length_MOVIES by simp

lemma counts_1: "count_up [''action'', ''sci-fi'', ''thriller'', ''dream'', ''heist'', ''mind-bending'', ''nolan''] [] =
  [(''action'', 1), (''sci-fi'', 1), (''thriller'', 1), (''dream'', 1), (''heist'', 1), (''mind-bending'', 1), (''nolan'', 1)]"
  by code_simp
lemma counts_2: "count_up [''action'', ''crime'', ''drama'', ''batman'', ''joker'', ''nolan''] [] =
  [(''action'', 1), (''crime'', 1), (''drama'', 1), (''batman'', 1), (''joker'', 1), (''nolan'', 1)]"
  by code_simp
lemma counts_3: "count_up [''adventure'', ''drama'', ''sci-fi'', ''space'', ''time'', ''nolan'', ''wormhole''] [] =
  [(''adventure'', 1), (''drama'', 1), (''sci-fi'', 1), (''space'', 1), (''time'', 1), (''nolan'', 1), (''wormhole'', 1)]"
  by code_simp
lemma counts_4: "count_up [''action'', ''sci-fi'', ''simulation'', ''kung fu'', ''ai''] [] =
  [(''action'', 1), (''sci-fi'', 1), (''simulation'', 1), (''kung fu'', 1), (''ai'', 1)]"
  by code_simp
lemma counts_5: "count_up [''drama'', ''thriller'', ''class'', ''korean'', ''academy awards''] [] =
  [(''drama'', 1), (''thriller'', 1), (''class'', 1), (''korean'', 1), (''academy awards'', 1)]"
  by code_simp

lemma tfidf_MOVIES:
  "build_tfidf MOVIES =
    [(1, [(''action'', ln (3 / 2) + 1), (''sci-fi'', ln (3 / 2) + 1),
          (''thriller'', ln 2 + 1), (''dream'', ln 3 + 1),
          (''heist'', ln 3 + 1), (''mind-bending'', ln 3 + 1),
          (''nolan'', ln (3 / 2) + 1)]),
     (2, [(''action'', ln (3 / 2) + 1), (''crime'', ln 3 + 1),
          (''drama'', ln (3 / 2) + 1), (''batman'', ln 3 + 1),
          (''joker'', ln 3 + 1), (''nolan'', ln (3 / 2) + 1)]),
     (3, [(''adventure'', ln 3 + 1), (''drama'', ln (3 / 2) + 1),
          (''sci-fi'', ln (3 / 2) + 1), (''space'', ln 3 + 1),
          (''time'', ln 3 + 1), (''nolan'', ln (3 / 2) + 1),
          (''wormhole'', ln 3 + 1)]),
     (4, [(''action'', ln (3 / 2) + 1), (''sci-fi'', ln (3 / 2) + 1),
          (''simulation'', ln 3 + 1), (''kung fu'', ln 3 + 1),
          (''ai'', ln 3 + 1)]),
     (5, [(''drama'', ln (3 / 2) + 1), (''thriller'', ln 2 + 1),
          (''class'', ln 3 + 1), (''korean'', ln 3 + 1),
          (''academy awards'', ln 3 + 1)])]"
  unfolding build_tfidf_def docs_MOVIES vectors_loop.simps tfidf_vec_def
    counts_1 counts_2 counts_3 counts_4 counts_5 idf_MOVIES
  by (simp add: dict_get_def dict_set_def)

theorem tfidf_weights_nonneg_witness:
  "(''thriller'', ln 2 + 1) \<in> set (idf_of MOVIES)
   \<and> ln 2 + 1 = ln (real (length MOVIES + 1) / real (df_count MOVIES ''thriller'' + 1)) + 1
   \<and> (0::real) < ln 2 + 1
   \<and> (\<exists>vec. (5, vec) \<in> set (build_tfidf MOVIES) \<and> (''class'', ln 3 + 1) \<in> set vec
          \<and> (0::real) \<le> ln 3 + 1)"
proof -
  define v5 :: "(string \<times> real) list" where
    "v5 = [(''drama'', ln (3 / 2) + 1), (''thriller'', ln 2 + 1), (''class'', ln 3 + 1),
           (''korean'', ln 3 + 1), (''academy awards'', ln 3 + 1)]"
  have mem: "(''thriller'', ln 2 + 1) \<in> set (idf_of MOVIES)"
    unfolding idf_MOVIES by simp
  have vec: "(5, v5) \<in> set (build_tfidf MOVIES)"
    unfolding tfidf_MOVIES v5_def by simp
  have cls: "(''class'', ln 3 + 1) \<in> set v5" by (simp add: v5_def)
  note t = tfidf_weights_nonneg [of MOVIES]
  from t [THEN conjunct1, THEN bspec, OF mem]
  have 1: "ln 2 + 1 = ln (real (length MOVIES + 1) / real (df_count MOVIES ''thriller'' + 1)) + 1
     \<and> (0::real) < ln 2 + 1" unfolding prod.case .
  from t [THEN conjunct2, THEN bspec, OF vec]
  obtain m where "\<forall>(t, w)\<in>set v5.
      w = real (count_list (tokens_of m) t)
            * (ln (real (length MOVIES + 1) / real (df_count MOVIES t + 1)) + 1) \<and> 0 \<le> w"
    unfolding prod.case by blast
  from bspec [OF this cls] have 2: "(0::real) \<le> ln 3 + 1" unfolding prod.case by (rule conjunct2)
  from mem vec cls 1 2 show ?thesis by blast
qed

section \<open>The collaborative predictor\<close>

lemma cf_sims_eq:
  "cf_sims ratings community =
     Inr (map (\<lambda>u. (userId u, cosine_val ratings (peer_ratings u), peer_ratings u)) community)"
  by (induction community) (simp_all add: cosine_sim_val)

lemma cf_accum_sums:
  "cf_accum neighbors m (num, den) = (num + cf_num neighbors m, den + cf_den neighbors m)"
proof (induction neighbors arbitrary: num den)
  case Nil
  then show ?case by (simp add: cf_num_def cf_den_def cf_raters_def)
next
  case (Cons n neighbors)
  obtain uid sim r where n: "n = (uid, sim, r)" by (cases n)
  show ?case
    using Cons.IH by (simp add: n cf_num_def cf_den_def cf_raters_def add.assoc)
qed

lemma cf_loop_eq:
  "distinct ms \<Longrightarrow> set ms \<inter> fst ` set pred = {} \<Longrightarrow>
   cf_loop ms ratings neighbors pred =
     pred @ map (\<lambda>m. (m, cf_num neighbors m / cf_den neighbors m))
       (filter (\<lambda>m. \<not> dict_contains ratings m \<and> 0 < cf_den neighbors m) ms)"
proof (induction ms arbitrary: pred)
  case Nil
  then show ?case by simp
next
  case (Cons m ms)
  from Cons.prems have m: "m \<notin> fst ` set pred" and ms: "distinct ms" "m \<notin> set ms"
    and disj: "set ms \<inter> fst ` set pred = {}" by auto
  show ?case
  proof (cases "\<not> dict_contains ratings m \<and> 0 < cf_den neighbors m")
    case True
    let ?p = "pred @ [(m, cf_num neighbors m / cf_den neighbors m)]"
    have "set ms \<inter> fst ` set ?p = {}" using disj ms by auto
    from Cons.IH [OF ms(1) this] True m show ?thesis
      by (simp add: cf_accum_sums dict_set_new)
  next
    case False
    from Cons.IH [OF ms(1) disj] False show ?thesis
      by (auto simp: cf_accum_sums)
  qed
qed

lemma predict_cf_eq:
  "predict_cf ratings community k =
     Inr (map (\<lambda>m. (m, cf_num (cf_neighbors (map (\<lambda>u. (userId u, cosine_val ratings (peer_ratings u),
                 peer_ratings u)) community) k) m
               / cf_den (cf_neighbors (map (\<lambda>u. (userId u, cosine_val ratings (peer_ratings u),
                 peer_ratings u)) community) k) m))
       (filter (\<lambda>m. \<not> dict_contains ratings m
                \<and> 0 < cf_den (cf_neighbors (map (\<lambda>u. (userId u, cosine_val ratings (peer_ratings u),
                 peer_ratings u)) community) k) m) movie_ids))"
  using cf_loop_eq [OF distinct_movie_ids, of "[]"]
  by (simp add: predict_cf_def cf_sims_eq)

lemma predict_cf_keys:
  assumes "predict_cf ratings community k = Inr cf"
  shows "\<exists>P. dict_keys cf = filter (\<lambda>m. \<not> dict_contains ratings m \<and> P m) movie_ids"
  using assms unfolding predict_cf_eq by (auto simp: dict_keys_def comp_def)

lemma cf_unsorted_example:
  "predict_cf [(1, 5)] [\<lparr>userId = ''u_carl'', peer_ratings = [(1, 1), (2, 1), (3, 5), (4, 3)]\<rparr>] 3
     = Inr [(2, 1), (3, 5), (4, 3)]"
  by (simp add: predict_cf_def cosine_sim_def cosine_keys_def dict_keys_def dict_get_def
      py_sqrt_def py_div_def cf_neighbors_def movie_ids_def MOVIES_def dict_contains_def
      dict_set_def)

lemma cf_pipeline_example:
  "predict_cf [(1, 5)] COMMUNITY 3 = Inr [(2, 5), (3, 5), (4, 5)]"
  by (simp add: predict_cf_def cosine_sim_def cosine_keys_def dict_keys_def dict_get_def
      py_sqrt_def py_div_def cf_neighbors_def movie_ids_def MOVIES_def dict_contains_def
      dict_set_def COMMUNITY_def)

section \<open>The collaborative predictor on Python's numbers\<close>

lemma to_f64_of_num: "to_f64 v = Inr f \<Longrightarrow> f = f64_of_num v"
  by (cases v) (auto simp: to_f64_int f64_of_real_finite)

lemma float_or_zero_to_f64: "float_or_zero v \<Longrightarrow> to_f64 v = Inr (f64_of_num v)"
  by (cases v) auto

lemma num_add_float:
  assumes "float_or_zero a"
  shows "num_add a (PyFloat p) = Inr (PyFloat (f64_add (f64_of_num a) p))"
  using assms by (cases a) auto

lemma cf_step_f64_ok:
  assumes n: "neighbor_ok (uid, sim, r)" and m: "dict_contains r m"
    and acc: "float_or_zero num" "float_or_zero den"
  shows "cf_step_f64 sim (dict_get r m (PyInt 0)) (num, den) =
           Inr (PyFloat (f64_add (f64_of_num num)
                           (f64_mul (f64_of_num sim) (f64_of_num (dict_get r m (PyInt 0))))),
                PyFloat (f64_add (f64_of_num den) (f64_abs (f64_of_num sim))))"
proof -
  from n obtain s where sim: "sim = PyFloat (Finite s)" by (auto simp: neighbor_ok_def)
  from n m obtain f where f: "to_f64 (dict_get r m (PyInt 0)) = Inr f"
    by (auto simp: neighbor_ok_def)
  note f' = to_f64_of_num [OF f]
  have mul: "num_mul sim (dict_get r m (PyInt 0)) = Inr (PyFloat (f64_mul (Finite s) f))"
    using f by (cases "dict_get r m (PyInt 0)") (simp_all add: sim)
  have ab: "num_abs sim = PyFloat (f64_abs (Finite s))"
    by (simp add: sim)
  have "cf_step_f64 sim (dict_get r m (PyInt 0)) (num, den) =
          Inr (PyFloat (f64_add (f64_of_num num) (f64_mul (Finite s) f)),
               PyFloat (f64_add (f64_of_num den) (f64_abs (Finite s))))"
    unfolding cf_step_f64_def prod.case mul ab
    by (simp only: py_then_simps num_add_float [OF acc(1)] num_add_float [OF acc(2)])
  then show ?thesis
    by (simp add: sim f')
qed

lemma foldl_f64_add_Cons: "foldl f64_add a (x # xs) = foldl f64_add (f64_add a x) xs"
  by simp

lemma cf_accum_f64_eq:
  assumes "\<forall>n\<in>set neighbors. neighbor_ok n" "float_or_zero num" "float_or_zero den"
  shows "cf_accum_f64 neighbors m (num, den) =
     Inr (if cf_raters_f64 neighbors m = [] then (num, den)
          else (PyFloat (foldl f64_add (f64_of_num num)
                   (map (\<lambda>n. f64_mul (f64_of_num (fst (snd n)))
                                  (f64_of_num (dict_get (snd (snd n)) m (PyInt 0))))
                        (cf_raters_f64 neighbors m))),
                PyFloat (foldl f64_add (f64_of_num den)
                   (map (\<lambda>n. f64_abs (f64_of_num (fst (snd n)))) (cf_raters_f64 neighbors m)))))"
  using assms
proof (induction neighbors arbitrary: num den)
  case Nil
  then show ?case by (simp add: cf_raters_f64_def)
next
  case (Cons n neighbors)
  obtain uid sim r where n: "n = (uid, sim, r)" by (cases n)
  from Cons.prems(1) have ok: "neighbor_ok (uid, sim, r)" and rest: "\<forall>n\<in>set neighbors. neighbor_ok n"
    by (simp_all add: n)
  show ?case
  proof (cases "dict_contains r m")
    case False
    with Cons.IH [OF rest Cons.prems(2,3)] show ?thesis by (simp add: n cf_raters_f64_def)
  next
    case True
    note step = cf_step_f64_ok [OF ok True Cons.prems(2,3)]
    have fz: "float_or_zero (PyFloat x)" for x by simp
    from Cons.IH [OF rest fz fz] True show ?thesis
      by (simp add: n step cf_raters_f64_def)
  qed
qed

lemma sum_list_member_le_int:
  fixes f :: "'a \<Rightarrow> int"
  assumes "\<forall>x\<in>set xs. 0 \<le> f x" "k \<in> set xs"
  shows "f k \<le> (\<Sum>x\<leftarrow>xs. f x)"
  using assms
proof (induction xs)
  case Nil
  then show ?case by simp
next
  case (Cons x xs)
  have nn: "0 \<le> (\<Sum>x\<leftarrow>xs. f x)"
    by (rule sum_list_nonneg) (use Cons.prems in auto)
  show ?case
  proof (cases "k = x")
    case True
    with nn show ?thesis by simp
  next
    case False
    with Cons.prems have "k \<in> set xs" "\<forall>x\<in>set xs. 0 \<le> f x" by auto
    from Cons.IH [OF this(2,1)] Cons.prems(1) show ?thesis by simp
  qed
qed

lemma int_rating_converts:
  assumes b: "f64_round (of_int (int_sq ks r)) < 2 ^ 1024" and m: "m \<in> set ks"
  shows "\<bar>f64_round (of_int (int_get r m))\<bar> < 2 ^ 1024"
proof -
  define n where "n = int_get r m"
  define B where "B = int_sq ks r"
  have "n * n \<le> B"
    unfolding n_def B_def int_sq_def
    by (rule sum_list_member_le_int [where f = "\<lambda>k. int_get r k * int_get r k"]) (use m in auto)
  then have nB: "(of_int n :: real)\<^sup>2 \<le> of_int B"
    unfolding power2_eq_square of_int_mult [symmetric] of_int_le_iff .
  have B: "(of_int B :: real) \<le> 2 ^ 1024"
  proof (rule ccontr)
    assume "\<not> (of_int B :: real) \<le> 2 ^ 1024"
    then have 1: "(2::real) ^ 1024 \<le> of_int B" by simp
    have 2: "(0::real) \<le> 2 ^ 1024" by simp
    have "(2::real) ^ 1024 \<le> f64_round (of_int B)"
      by (rule f64_round_ge [OF 2 1 f64_round_power2])
    with b show False unfolding B_def by linarith
  qed
  have "(2::real) ^ 1024 = (2 ^ 512)\<^sup>2"
    unfolding power_mult [symmetric] by simp
  with nB B have "(of_int n :: real)\<^sup>2 \<le> (2 ^ 512)\<^sup>2" by linarith
  then have "\<bar>of_int n :: real\<bar> \<le> \<bar>2 ^ 512\<bar>" by (simp only: abs_le_square_iff)
  then have "\<bar>of_int n :: real\<bar> \<le> 2 ^ 512" by simp
  from f64_round_abs_bound [OF this]
  have "\<bar>f64_round (of_int n)\<bar> \<le> 2 ^ 512 + 2 ^ 512 / 2 ^ 53" .
  moreover have "(2::real) ^ 512 / 2 ^ 53 \<le> 2 ^ 512"
    by (rule divide_le_eq_1_pos [THEN iffD1, THEN mult_left_le [of _ "2 ^ 512", simplified]] | simp add: field_simps)+
  moreover have "(2::real) ^ 512 + 2 ^ 512 = 2 ^ 513" by simp
  moreover have "(2::real) ^ 513 < 2 ^ 1024" by (rule power_strict_increasing) simp_all
  ultimately show ?thesis unfolding n_def by linarith
qed

lemma cf_sims_f64_Inr:
  assumes "cf_sims_f64 ord ratings us = Inr sims"
  shows "map fst sims = map py_userId us \<and> map (\<lambda>s. snd (snd s)) sims = map py_ratings us
     \<and> (\<forall>s\<in>set sims. cosine_sim_f64 (ord ratings (snd (snd s))) ratings (snd (snd s))
                          = Inr (fst (snd s)))"
  using assms
proof (induction us arbitrary: sims)
  case Nil
  then show ?case by simp
next
  case (Cons u us)
  from Cons.prems obtain sim rest
    where c: "cosine_sim_f64 (ord ratings (py_ratings u)) ratings (py_ratings u) = Inr sim"
      and r: "cf_sims_f64 ord ratings us = Inr rest"
      and s: "sims = (py_userId u, sim, py_ratings u) # rest"
    by (auto split: sum.splits)
  from Cons.IH [OF r] c show ?case by (simp add: s)
qed

lemma cf_sims_f64_Inl:
  assumes "cf_sims_f64 ord ratings us = Inl e"
  shows "\<exists>u\<in>set us. cosine_sim_f64 (ord ratings (py_ratings u)) ratings (py_ratings u) = Inl e"
  using assms
proof (induction us)
  case Nil
  then show ?case by simp
next
  case (Cons u us)
  then show ?case by (auto split: sum.splits)
qed

lemma cf_sims_f64_returns:
  assumes "\<forall>u\<in>set us. \<exists>r. cosine_sim_f64 (ord ratings (py_ratings u)) ratings (py_ratings u) = Inr r"
  shows "\<exists>sims. cf_sims_f64 ord ratings us = Inr sims"
  using assms
proof (induction us)
  case Nil
  then show ?case by simp
next
  case (Cons u us)
  then show ?case by (auto split: sum.splits)
qed

lemma neighbor_ok_sims:
  assumes ord: "key_order ord" and ia: "int_weights ratings" and ib: "int_weights r"
    and c: "cosine_sim_f64 (ord ratings r) ratings r = Inr sim" and pos: "num_gt0 sim"
  shows "neighbor_ok (uid, sim, r)"
proof -
  from pos have ne: "sim \<noteq> PyInt 0" by auto
  from cosine_sim_f64_int_result(1) [OF ia ib c] ne
  obtain q where q: "sim = PyFloat (Finite q)" "f64_round q = q" by blast
  from pos q have q0: "0 < q" by simp
  note b = cosine_sim_f64_int_result(2) [OF ia ib c ne]
  have "\<exists>f. to_f64 (dict_get r m (PyInt 0)) = Inr f" if m: "dict_contains r m" for m
  proof -
    from m ord have "m \<in> set (ord ratings r)" by (simp add: key_order_def dict_contains_def)
    from int_rating_converts [OF b this]
    show ?thesis by (simp add: int_weights_get [OF ib] to_f64_int_cases)
  qed
  with q q0 show ?thesis by (simp add: neighbor_ok_def)
qed

lemma pos_f64_gt0: "pos_f64 f \<Longrightarrow> num_gt0 (PyFloat f) \<and> f \<noteq> Finite 0"
  using f64_least_pos by (cases f) (auto simp: pos_f64_def)

lemma f64_add_pos:
  assumes acc: "acc = PosInf \<or> (\<exists>a. acc = Finite a \<and> 0 \<le> a)" and s: "f64_least \<le> s"
  shows "pos_f64 (f64_add acc (Finite s))"
proof -
  from acc consider "acc = PosInf" | a where "acc = Finite a" "0 \<le> a" by blast
  then show ?thesis
  proof cases
    case 1
    then show ?thesis by (simp add: pos_f64_def)
  next
    case 2
    have l0: "0 \<le> f64_least" using f64_least_pos by simp
    from 2 s have "f64_least \<le> a + s" by simp
    from f64_round_ge [OF l0 this f64_round_least]
    have "f64_least \<le> f64_round (a + s)" .
    then show ?thesis
      using f64_least_pos by (auto simp: 2 pos_f64_def f64_of_real_def Let_def)
  qed
qed

lemma pos_f64_acc: "pos_f64 f \<Longrightarrow> f = PosInf \<or> (\<exists>a. f = Finite a \<and> 0 \<le> a)"
  using f64_least_pos by (cases f) (auto simp: pos_f64_def)

lemma foldl_f64_add_pos:
  assumes "acc = PosInf \<or> (\<exists>a. acc = Finite a \<and> 0 \<le> a)"
    and "\<forall>x\<in>set xs. \<exists>s. x = Finite s \<and> f64_least \<le> s" and "xs \<noteq> []"
  shows "pos_f64 (foldl f64_add acc xs)"
  using assms
proof (induction xs arbitrary: acc)
  case Nil
  then show ?case by simp
next
  case (Cons x xs)
  from Cons.prems(2) obtain s where x: "x = Finite s" "f64_least \<le> s" by auto
  note p = f64_add_pos [OF Cons.prems(1) x(2)]
  show ?case
  proof (cases "xs = []")
    case True
    with p show ?thesis by (simp add: x)
  next
    case False
    from Cons.IH [OF pos_f64_acc [OF p] _ False] Cons.prems(2) show ?thesis by (simp add: x)
  qed
qed

lemma cf_den_f64_pos:
  assumes ok: "\<forall>n\<in>set neighbors. neighbor_ok n" and ne: "cf_raters_f64 neighbors m \<noteq> []"
  shows "pos_f64 (cf_den_f64 neighbors m)"
  unfolding cf_den_f64_def f64_sum_def
proof (rule foldl_f64_add_pos)
  show "Finite 0 = PosInf \<or> (\<exists>a. Finite 0 = Finite a \<and> (0::real) \<le> a)" by simp
  show "map (\<lambda>n. f64_abs (f64_of_num (fst (snd n)))) (cf_raters_f64 neighbors m) \<noteq> []"
    using ne by simp
  show "\<forall>x\<in>set (map (\<lambda>n. f64_abs (f64_of_num (fst (snd n)))) (cf_raters_f64 neighbors m)).
          \<exists>s. x = Finite s \<and> f64_least \<le> s"
  proof
    fix x assume "x \<in> set (map (\<lambda>n. f64_abs (f64_of_num (fst (snd n)))) (cf_raters_f64 neighbors m))"
    then obtain n where n: "n \<in> set neighbors" and x: "x = f64_abs (f64_of_num (fst (snd n)))"
      by (auto simp: cf_raters_f64_def)
    from ok n have "neighbor_ok n" by blast
    then obtain s where s: "fst (snd n) = PyFloat (Finite s)" "0 < s" "f64_round s = s"
      by (auto simp: neighbor_ok_def)
    from double_pos_ge [OF s(2,3)] s show "\<exists>s. x = Finite s \<and> f64_least \<le> s"
      by (simp add: x)
  qed
qed

lemma cf_accum_f64_sums:
  assumes "\<forall>n\<in>set neighbors. neighbor_ok n"
  shows "cf_accum_f64 neighbors m (PyInt 0, PyInt 0) =
     Inr (if cf_raters_f64 neighbors m = [] then (PyInt 0, PyInt 0)
          else (PyFloat (cf_num_f64 neighbors m), PyFloat (cf_den_f64 neighbors m)))"
  using cf_accum_f64_eq [OF assms, of "PyInt 0" "PyInt 0" m]
  by (simp add: cf_num_f64_def cf_den_f64_def f64_sum_def f64_of_real_0)

lemma num_div_floats:
  "d \<noteq> Finite 0 \<Longrightarrow> num_div (PyFloat n) (PyFloat d) = Inr (PyFloat (f64_div n d))"
  by simp

lemma cf_loop_f64_eq:
  assumes ok: "\<forall>n\<in>set neighbors. neighbor_ok n"
  shows "distinct ms \<Longrightarrow> set ms \<inter> fst ` set pred = {} \<Longrightarrow>
   cf_loop_f64 ms ratings neighbors pred =
     Inr (pred @ map (\<lambda>m. (m, PyFloat (f64_div (cf_num_f64 neighbors m) (cf_den_f64 neighbors m))))
       (filter (\<lambda>m. \<not> dict_contains ratings m \<and> cf_raters_f64 neighbors m \<noteq> []) ms))"
proof (induction ms arbitrary: pred)
  case Nil
  then show ?case by simp
next
  case (Cons m ms)
  from Cons.prems have m: "m \<notin> fst ` set pred" and ms: "distinct ms" and mm: "m \<notin> set ms"
    and dj: "set ms \<inter> fst ` set pred = {}" by auto
  note acc = cf_accum_f64_sums [OF ok, of m]
  show ?case
  proof (cases "dict_contains ratings m \<or> cf_raters_f64 neighbors m = []")
    case True
    with Cons.IH [OF ms dj] show ?thesis by (auto simp: acc)
  next
    case False
    then have ne: "cf_raters_f64 neighbors m \<noteq> []" and nr: "\<not> dict_contains ratings m" by auto
    note p = pos_f64_gt0 [OF cf_den_f64_pos [OF ok ne]]
    let ?q = "PyFloat (f64_div (cf_num_f64 neighbors m) (cf_den_f64 neighbors m))"
    have upd: "dict_set m ?q pred = pred @ [(m, ?q)]"
      using m by (rule dict_set_new)
    have dj': "set ms \<inter> fst ` set (pred @ [(m, ?q)]) = {}" using dj mm by auto
    from Cons.IH [OF ms dj'] show ?thesis
      using ne nr p by (simp add: acc num_div_floats upd del: num_div.simps num_gt0.simps)
  qed
qed

lemma cf_neighbors_f64_length: "length (cf_neighbors_f64 sims k) \<le> k"
  by (simp add: cf_neighbors_f64_def)

lemma cf_neighbors_f64_positive:
  assumes "n \<in> set (cf_neighbors_f64 sims k)"
  shows "n \<in> set sims \<and> num_gt0 (fst (snd n))"
proof -
  from assms
  have "n \<in> set (filter (\<lambda>s. num_gt0 (fst (snd s))) (sort_key (\<lambda>s. - num_key (fst (snd s))) sims))"
    unfolding cf_neighbors_f64_def by (rule in_set_takeD)
  then show ?thesis by simp
qed

lemma cf_neighbors_f64_top:
  assumes s: "s \<in> set sims" "num_gt0 (fst (snd s))"
  shows "s \<in> set (cf_neighbors_f64 sims k)
       \<or> (length (cf_neighbors_f64 sims k) = k
          \<and> (\<forall>n\<in>set (cf_neighbors_f64 sims k). num_key (fst (snd s)) \<le> num_key (fst (snd n))))"
proof -
  let ?key = "\<lambda>s. num_key (fst (snd s))"
  define fs where
    "fs = filter (\<lambda>s. num_gt0 (fst (snd s))) (sort_key (\<lambda>s. - ?key s) sims)"
  have nb: "cf_neighbors_f64 sims k = take k fs" by (simp add: cf_neighbors_f64_def fs_def)
  have "sorted (map (\<lambda>s. - ?key s) (sort_key (\<lambda>s. - ?key s) sims))"
    by (rule sorted_sort_key)
  then have "sorted_wrt (\<lambda>x y. ?key y \<le> ?key x) (sort_key (\<lambda>s. - ?key s) sims)"
    by (simp add: sorted_map)
  then have "sorted_wrt (\<lambda>x y. ?key y \<le> ?key x) fs"
    unfolding fs_def by (rule sorted_wrt_filter)
  then have "sorted_wrt (\<lambda>x y. ?key y \<le> ?key x) (take k fs @ drop k fs)" by simp
  then have le: "\<forall>x\<in>set (take k fs). \<forall>y\<in>set (drop k fs). ?key y \<le> ?key x"
    unfolding sorted_wrt_append by simp
  from s have "s \<in> set fs" by (simp add: fs_def)
  moreover have "set fs = set (take k fs) \<union> set (drop k fs)"
    using set_append [of "take k fs" "drop k fs"] by simp
  ultimately consider "s \<in> set (take k fs)" | "s \<in> set (drop k fs)" by blast
  then show ?thesis
  proof cases
    case 1
    then show ?thesis by (simp add: nb)
  next
    case 2
    then have "drop k fs \<noteq> []" by auto
    then have "length (take k fs) = k" by simp
    with le 2 show ?thesis by (auto simp: nb)
  qed
qed

lemma cosine_sim_f64_int_returns:
  fixes ks :: "'k list"
  assumes ia: "int_weights a" and ib: "int_weights b"
    and A: "int_sq ks a < 2 ^ 1023" and B: "int_sq ks b < 2 ^ 1023"
  shows "\<exists>r. cosine_sim_f64 ks a b = Inr r"
proof -
  have small: "f64_round (of_int n) < 2 ^ 1024" if "0 \<le> n" "n < 2 ^ 1023" for n :: int
  proof -
    from that have 1: "(0::real) \<le> of_int n" by simp
    from that(2) have "(of_int n :: real) < of_int (2 ^ 1023)" by (simp only: of_int_less_iff)
    then have 2: "(of_int n :: real) \<le> 2 ^ 1023" by simp
    have "f64_round (of_int n) \<le> 2 ^ 1023"
      by (rule f64_round_le [OF 1 2 f64_round_power2])
    moreover have "(2::real) ^ 1023 < 2 ^ 1024" by (rule power_strict_increasing) simp_all
    ultimately show ?thesis by linarith
  qed
  note sa = small [OF int_sq_nonneg A] and sb = small [OF int_sq_nonneg B]
  define P :: real where "P = 2 ^ 1023"
  have P0: "0 < P" by (simp add: P_def)
  from A have "(of_int (int_sq ks a) :: real) < of_int (2 ^ 1023)" by (simp only: of_int_less_iff)
  then have ra: "(of_int (int_sq ks a) :: real) \<le> P" by (simp add: P_def)
  from B have "(of_int (int_sq ks b) :: real) < of_int (2 ^ 1023)" by (simp only: of_int_less_iff)
  then have rb: "(of_int (int_sq ks b) :: real) \<le> P" by (simp add: P_def)
  have na: "(0::real) \<le> of_int (int_sq ks a)" and nb: "(0::real) \<le> of_int (int_sq ks b)"
    using int_sq_nonneg [of ks a] int_sq_nonneg [of ks b] by simp_all
  have "(of_int (int_sq ks a) :: real) * of_int (int_sq ks b) \<le> P * P"
    by (rule mult_mono [OF ra rb _ nb]) (use P0 in simp)
  with int_cauchy_schwarz [of ks a b]
  have "(of_int (int_dot ks a b) :: real)\<^sup>2 \<le> P\<^sup>2" by (simp add: power2_eq_square)
  then have "\<bar>of_int (int_dot ks a b) :: real\<bar> \<le> \<bar>P\<bar>" by (simp only: abs_le_square_iff)
  with P0 have "\<bar>of_int (int_dot ks a b) :: real\<bar> \<le> 2 ^ 1023" by (simp add: P_def)
  from f64_round_abs_bound [OF this]
  have "\<bar>f64_round (of_int (int_dot ks a b))\<bar> \<le> 2 ^ 1023 + 2 ^ 1023 / 2 ^ 53" .
  moreover have "(2::real) ^ 1023 / 2 ^ 53 < 2 ^ 1023" by (simp add: field_simps)
  moreover have "(2::real) ^ 1023 + 2 ^ 1023 = 2 ^ 1024" by simp
  ultimately have sd: "\<bar>f64_round (of_int (int_dot ks a b))\<bar> < 2 ^ 1024" by linarith
  show ?thesis
    unfolding cosine_sim_f64_int_value [OF ia ib] using sa sb sd by simp
qed

lemma predict_cf_f64_spec:
  assumes ord: "key_order ord" and ia: "int_weights ratings"
    and ic: "\<forall>u\<in>set community. int_weights (py_ratings u)"
    and sims: "cf_sims_f64 ord ratings community = Inr sims"
  defines "neighbors \<equiv> cf_neighbors_f64 sims 3"
  shows "\<exists>pred. predict_cf_f64 ord ratings community 3 = Inr pred
     \<and> length neighbors \<le> 3
     \<and> (\<forall>n\<in>set neighbors. n \<in> set sims \<and> (\<exists>s. fst (snd n) = PyFloat (Finite s) \<and> 0 < s))
     \<and> (\<forall>s\<in>set sims. num_gt0 (fst (snd s)) \<longrightarrow>
          s \<in> set neighbors
          \<or> (length neighbors = 3
              \<and> (\<forall>n\<in>set neighbors. num_key (fst (snd s)) \<le> num_key (fst (snd n)))))
     \<and> is_dict pred
     \<and> (\<forall>m. dict_contains pred m \<longleftrightarrow>
              m \<in> set movie_ids \<and> \<not> dict_contains ratings m
              \<and> (\<exists>n\<in>set neighbors. dict_contains (snd (snd n)) m))
     \<and> (\<forall>m. dict_contains pred m \<longrightarrow>
              map_of pred m
                = Some (PyFloat (f64_div (cf_num_f64 neighbors m) (cf_den_f64 neighbors m))))"
proof -
  note S = cf_sims_f64_Inr [OF sims]
  have ok: "\<forall>n\<in>set neighbors. neighbor_ok n"
  proof
    fix n assume "n \<in> set neighbors"
    then have n: "n \<in> set sims" "num_gt0 (fst (snd n))"
      unfolding neighbors_def using cf_neighbors_f64_positive by blast+
    from S n(1) have c: "cosine_sim_f64 (ord ratings (snd (snd n))) ratings (snd (snd n))
                          = Inr (fst (snd n))" by blast
    from n(1) have "snd (snd n) \<in> set (map (\<lambda>s. snd (snd s)) sims)" by simp
    with S have "snd (snd n) \<in> py_ratings ` set community" by simp
    with ic have ib: "int_weights (snd (snd n))" by auto
    from neighbor_ok_sims [OF ord ia ib c n(2), of "fst n"] show "neighbor_ok n" by simp
  qed
  let ?P = "\<lambda>m. \<not> dict_contains ratings m \<and> cf_raters_f64 neighbors m \<noteq> []"
  let ?v = "\<lambda>m. PyFloat (f64_div (cf_num_f64 neighbors m) (cf_den_f64 neighbors m))"
  define pred where "pred = map (\<lambda>m. (m, ?v m)) (filter ?P movie_ids)"
  have loop: "cf_loop_f64 movie_ids ratings neighbors [] = Inr pred"
    using cf_loop_f64_eq [OF ok distinct_movie_ids, of "[]" ratings] by (simp add: pred_def)
  have 1: "predict_cf_f64 ord ratings community 3 = Inr pred"
    by (simp add: predict_cf_f64_def sims loop neighbors_def [symmetric])
  have 2: "length neighbors \<le> 3" unfolding neighbors_def by (rule cf_neighbors_f64_length)
  have 3: "\<forall>n\<in>set neighbors. n \<in> set sims \<and> (\<exists>s. fst (snd n) = PyFloat (Finite s) \<and> 0 < s)"
  proof
    fix n assume n: "n \<in> set neighbors"
    with ok have "neighbor_ok n" by blast
    moreover from n have "n \<in> set sims"
      unfolding neighbors_def using cf_neighbors_f64_positive by blast
    ultimately show "n \<in> set sims \<and> (\<exists>s. fst (snd n) = PyFloat (Finite s) \<and> 0 < s)"
      by (auto simp: neighbor_ok_def)
  qed
  have 4: "\<forall>s\<in>set sims. num_gt0 (fst (snd s)) \<longrightarrow>
          s \<in> set neighbors
          \<or> (length neighbors = 3
              \<and> (\<forall>n\<in>set neighbors. num_key (fst (snd s)) \<le> num_key (fst (snd n))))"
    unfolding neighbors_def using cf_neighbors_f64_top by blast
  have keys: "dict_keys pred = filter ?P movie_ids"
    by (simp add: pred_def dict_keys_def comp_def)
  have 5: "is_dict pred" by (simp add: is_dict_def keys distinct_movie_ids)
  have 6: "\<forall>m. dict_contains pred m \<longleftrightarrow>
              m \<in> set movie_ids \<and> \<not> dict_contains ratings m
              \<and> (\<exists>n\<in>set neighbors. dict_contains (snd (snd n)) m)"
    by (auto simp: dict_contains_def [of pred] keys cf_raters_f64_def filter_empty_conv)
  have 7: "\<forall>m. dict_contains pred m \<longrightarrow> map_of pred m = Some (?v m)"
  proof (intro allI impI)
    fix m assume "dict_contains pred m"
    then have "m \<in> set (filter ?P movie_ids)" by (simp add: dict_contains_def keys)
    then show "map_of pred m = Some (?v m)"
      unfolding pred_def by (simp add: map_of_map_restrict)
  qed
  from 1 2 3 4 5 6 7 show ?thesis by blast
qed

lemma key_order_cosine_keys: "key_order cosine_keys_f64"
  by (simp add: key_order_def cosine_keys_f64_def)

lemma int_quotient_zero:
  assumes A: "1 \<le> A" and B: "1 \<le> B"
  shows "int_quotient 0 A B = Finite 0"
proof -
  define sa where "sa = f64_round (sqrt (f64_round (of_int A)))"
  define sb where "sb = f64_round (sqrt (f64_round (of_int B)))"
  have A': "(1::real) \<le> of_int A" and B': "(1::real) \<le> of_int B" using A B by simp_all
  have "1 * 1 \<le> sa * sb"
    using root_lower(2) [OF A'] root_lower(2) [OF B'] unfolding sa_def sb_def
    by (intro mult_mono) simp_all
  then have ab: "0 \<le> sa * sb" and "1 \<le> f64_round (sa * sb)"
    by (simp, intro f64_round_ge_1, simp)
  then have nz: "f64_round (sa * sb) \<noteq> 0" by simp
  from f64_of_real_nonneg [OF ab]
  consider "f64_of_real (sa * sb) = Finite (f64_round (sa * sb))" | "f64_of_real (sa * sb) = PosInf"
    by auto
  then show ?thesis
    using nz
    by cases (simp_all add: int_quotient_def sa_def [symmetric] sb_def [symmetric] f64_round_0
        f64_of_real_0)
qed

lemma f64_of_real_int: "\<bar>m\<bar> \<le> 2 ^ 53 \<Longrightarrow> f64_of_real (of_int m) = Finite (of_int m)"
  by (rule f64_of_real_eq [OF f64_round_int])
    (auto intro: le_less_trans [of _ "2 ^ 53"] simp: abs_le_iff power_strict_increasing)

lemma f64_of_real_half: "f64_of_real (1 / 2) = Finite (1 / 2)"
  using f64_of_real_eq [OF f64_round_dyadic [of 1 1]] by simp

lemma f64_of_real_5_2: "f64_of_real (5 / 2) = Finite (5 / 2)"
  using f64_of_real_eq [OF f64_round_dyadic [of 5 1]] by simp

lemma cf_sims_f64_example:
  "cf_sims_f64 cosine_keys_f64 [(1, PyInt 5)] COMMUNITY_f64 =
     Inr [(''u_alex'', PyFloat (Finite (1 / 2)),
             [(1, PyInt 5), (2, PyInt 5), (3, PyInt 5), (4, PyInt 5)]),
          (''u_bianca'', PyFloat (Finite 0), [(5, PyInt 5), (3, PyInt 4)])]"
proof -
  let ?r = "[(1::int, PyInt 5)]"
  let ?a = "[(1::int, PyInt 5), (2, PyInt 5), (3, PyInt 5), (4, PyInt 5)]"
  let ?b = "[(5::int, PyInt 5), (3, PyInt 4)]"
  have iw: "int_weights ?r" "int_weights ?a" "int_weights ?b" by (simp_all add: int_weights_def)
  have ka: "cosine_keys_f64 ?r ?a = [1, 2, 3, 4]" and kb: "cosine_keys_f64 ?r ?b = [1, 5, 3]"
    by (simp_all add: cosine_keys_f64_def dict_keys_def)
  have sa: "int_dot [1, 2, 3, 4] ?r ?a = 25" "int_sq [1, 2, 3, 4] ?r = 25" "int_sq [1, 2, 3, 4] ?a = 100"
    by (simp_all add: int_dot_def int_sq_def int_get_def dict_get_def)
  have sb: "int_dot [1, 5, 3] ?r ?b = 0" "int_sq [1, 5, 3] ?r = 25" "int_sq [1, 5, 3] ?b = 41"
    by (simp_all add: int_dot_def int_sq_def int_get_def dict_get_def)
  have r: "f64_round 25 = 25" "f64_round 100 = 100" "f64_round 41 = 41" "f64_round 5 = 5"
    "f64_round 10 = 10" "f64_round 0 = 0"
    using f64_round_int [of 25] f64_round_int [of 100] f64_round_int [of 41] f64_round_int [of 5]
      f64_round_int [of 10] by (simp_all add: f64_round_0)
  have q: "sqrt 25 = 5" "sqrt 100 = 10"
    using real_sqrt_abs [of 5] real_sqrt_abs [of 10] by simp_all
  have f50: "f64_of_real 50 = Finite 50" using f64_of_real_int [of 50] by simp
  have qa: "int_quotient 25 25 100 = Finite (1 / 2)"
    by (simp add: int_quotient_def r q f50 f64_of_real_half)
  have qb: "int_quotient 0 25 41 = Finite 0" by (rule int_quotient_zero) simp_all
  have ca: "cosine_sim_f64 [1, 2, 3, 4] ?r ?a = Inr (PyFloat (Finite (1 / 2)))"
    unfolding cosine_sim_f64_int_value [OF iw(1,2)] sa by (simp add: r qa)
  have cb: "cosine_sim_f64 [1, 5, 3] ?r ?b = Inr (PyFloat (Finite 0))"
    unfolding cosine_sim_f64_int_value [OF iw(1,3)] sb by (simp add: r qb)
  show ?thesis
    by (simp add: COMMUNITY_f64_def ka kb ca cb)
qed

lemma predict_cf_f64_example:
  "predict_cf_f64 cosine_keys_f64 [(1, PyInt 5)] COMMUNITY_f64 3 =
     Inr [(2, PyFloat (Finite 5)), (3, PyFloat (Finite 5)), (4, PyFloat (Finite 5))]"
proof -
  have f5: "f64_of_real 5 = Finite 5" using f64_of_real_int [of 5] by simp
  have t5: "to_f64 (PyInt 5) = Inr (Finite 5)" by (simp add: to_f64_def f5)
  show ?thesis
    unfolding predict_cf_f64_def cf_sims_f64_example
    by (simp add: cf_neighbors_f64_def movie_ids_def MOVIES_def dict_contains_def dict_keys_def dict_get_def
        cf_step_f64_def t5 f5 f64_of_real_half f64_of_real_5_2 dict_set_def)
qed



section \<open>The content predictor\<close>

lemma cb_loop_eq:
  "distinct (map movie_id ms) \<Longrightarrow> movie_id ` set ms \<inter> fst ` set scores = {} \<Longrightarrow>
   cb_loop ms tfidf_vectors user_profile ratings scores =
     Inr (scores @ map (\<lambda>m. (movie_id m,
                              cosine_val user_profile (dict_get tfidf_vectors (movie_id m) []) * 5))
       (filter (\<lambda>m. \<not> dict_contains ratings (movie_id m)) ms))"
proof (induction ms arbitrary: scores)
  case Nil
  then show ?case by simp
next
  case (Cons m ms)
  from Cons.prems have m: "movie_id m \<notin> fst ` set scores" and ms: "distinct (map movie_id ms)"
    and notin: "movie_id m \<notin> movie_id ` set ms"
    and disj: "movie_id ` set ms \<inter> fst ` set scores = {}" by auto
  show ?case
  proof (cases "dict_contains ratings (movie_id m)")
    case True
    from Cons.IH [OF ms disj] True show ?thesis by simp
  next
    case False
    let ?s = "scores @ [(movie_id m,
                cosine_val user_profile (dict_get tfidf_vectors (movie_id m) []) * 5)]"
    have "movie_id ` set ms \<inter> fst ` set ?s = {}" using disj notin by auto
    from Cons.IH [OF ms this] False m show ?thesis
      by (simp add: cosine_sim_val dict_set_new)
  qed
qed

lemma predict_cb_eq:
  "predict_cb tfidf_vectors user_profile ratings =
     Inr (map (\<lambda>m. (movie_id m,
                     cosine_val user_profile (dict_get tfidf_vectors (movie_id m) []) * 5))
       (filter (\<lambda>m. \<not> dict_contains ratings (movie_id m)) MOVIES))"
proof -
  have "distinct (map movie_id MOVIES)" using distinct_movie_ids by (simp add: movie_ids_def)
  from cb_loop_eq [OF this, of "[]"] show ?thesis by (simp add: predict_cb_def)
qed

lemma predict_cb_keys:
  assumes "predict_cb tfidf_vectors user_profile ratings = Inr cb"
  shows "dict_keys cb = filter (\<lambda>m. \<not> dict_contains ratings m) movie_ids"
  using assms unfolding predict_cb_eq
  by (auto simp: dict_keys_def comp_def movie_ids_def filter_map)

section \<open>The profile builder\<close>

lemma acc_add_get:
  "is_dict vec \<Longrightarrow> dict_get (acc_add vec acc) t 0 = dict_get acc t 0 + dict_get vec t 0"
proof (induction vec arbitrary: acc)
  case Nil
  then show ?case by (simp add: dict_get_Nil)
next
  case (Cons p vec)
  obtain t' w where p: "p = (t', w)" by (cases p)
  from Cons.prems have t': "t' \<notin> set (dict_keys vec)" and vec: "is_dict vec"
    by (simp_all add: p is_dict_Cons)
  from dict_get_absent [OF t'] have "dict_get vec t' 0 = 0" .
  with Cons.IH [OF vec] show ?case
    by (simp add: p dict_get_dict_set dict_get_Cons)
qed

lemma dict_keys_Cons: "dict_keys ((k, v) # d) = k # dict_keys d"
  by (simp add: dict_keys_def)

lemma acc_add_keys: "set (dict_keys (acc_add vec acc)) = set (dict_keys acc) \<union> set (dict_keys vec)"
  by (induction vec arbitrary: acc) (auto simp: dict_keys_dict_set dict_keys_Cons dict_keys_Nil)

lemma acc_add_is_dict: "is_dict acc \<Longrightarrow> is_dict (acc_add vec acc)"
  by (induction vec arbitrary: acc) (auto simp: is_dict_dict_set)

lemma acc_loop_get:
  "\<forall>mid\<in>set liked. is_dict (dict_get tfidf_vectors mid []) \<Longrightarrow>
   dict_get (acc_loop liked tfidf_vectors acc) t 0 =
     dict_get acc t 0 + (\<Sum>mid\<leftarrow>liked. dict_get (dict_get tfidf_vectors mid []) t 0)"
  by (induction liked arbitrary: acc) (simp_all add: acc_add_get add.assoc)

lemma acc_loop_keys:
  "set (dict_keys (acc_loop liked tfidf_vectors acc)) =
     set (dict_keys acc) \<union> (\<Union>mid\<in>set liked. set (dict_keys (dict_get tfidf_vectors mid [])))"
  by (induction liked arbitrary: acc) (auto simp: acc_add_keys)

lemma acc_loop_is_dict: "is_dict acc \<Longrightarrow> is_dict (acc_loop liked tfidf_vectors acc)"
  by (induction liked arbitrary: acc) (auto simp: acc_add_is_dict)

lemma dict_get_is_dict:
  assumes "\<forall>x\<in>set d. is_dict (snd x)"
  shows "is_dict (dict_get d k [])"
proof (cases "map_of d k")
  case None
  then show ?thesis by (simp add: dict_get_def is_dict_Nil)
next
  case (Some v)
  then have "(k, v) \<in> set d" by (rule map_of_SomeD)
  with assms have "is_dict (snd (k, v))" by (rule bspec)
  with Some show ?thesis by (simp add: dict_get_def)
qed

lemma liked_of_iff: "mid \<in> set (liked_of ratings) \<longleftrightarrow> (\<exists>r. (mid, r) \<in> set ratings \<and> 4 \<le> r)"
  by (force simp: liked_of_def)

lemma cosine_val_empty: "cosine_val [] b = 0"
proof -
  have "cosine_sq (cosine_keys [] b) [] = 0" by (rule cosine_sq_zero) simp
  then have "cosine_sim [] b = Inr 0" by (simp add: cosine_sim_unfold)
  then show ?thesis by (simp add: cosine_val_def)
qed

lemma predict_cb_no_profile:
  "predict_cb tfidf_vectors [] ratings
     = Inr (map (\<lambda>m. (m, 0)) (filter (\<lambda>m. \<not> dict_contains ratings m) movie_ids))"
  unfolding predict_cb_eq
  by (simp add: cosine_val_empty movie_ids_def filter_map comp_def)

lemma build_user_profile_liked:
  assumes liked: "liked_of ratings \<noteq> []" and dicts: "\<forall>x\<in>set tfidf_vectors. is_dict (snd x)"
  shows "\<exists>up. build_user_profile tfidf_vectors ratings = Inr up \<and> is_dict up
           \<and> set (dict_keys up) = liked_terms tfidf_vectors ratings
           \<and> (\<forall>t\<in>liked_terms tfidf_vectors ratings.
                map_of up t = Some (liked_sum tfidf_vectors ratings t
                                     / liked_norm tfidf_vectors ratings))"
proof -
  define acc where "acc = acc_loop (liked_of ratings) tfidf_vectors []"
  have acc_dict: "is_dict acc" unfolding acc_def by (rule acc_loop_is_dict [OF is_dict_Nil])
  have acc_keys: "set (dict_keys acc) = liked_terms tfidf_vectors ratings"
    by (simp add: acc_def acc_loop_keys liked_terms_def dict_keys_Nil)
  have acc_get: "dict_get acc t 0 = liked_sum tfidf_vectors ratings t" for t
    unfolding acc_def liked_sum_def
    using acc_loop_get [of "liked_of ratings" tfidf_vectors "[]" t] dict_get_is_dict [OF dicts]
    by (simp add: dict_get_Nil)
  have "(\<Sum>v\<leftarrow>map snd acc. v * v) = (\<Sum>t\<leftarrow>dict_keys acc. (dict_get acc t 0)\<^sup>2)"
    by (simp add: is_dict_values [OF acc_dict, of 0] comp_def power2_eq_square)
  also have "\<dots> = (\<Sum>t\<in>set (dict_keys acc). (dict_get acc t 0)\<^sup>2)"
    using acc_dict unfolding is_dict_def by (rule sum_list_distinct_conv_sum_set)
  finally have sq: "(\<Sum>v\<leftarrow>map snd acc. v * v)
      = (\<Sum>t\<in>liked_terms tfidf_vectors ratings. (liked_sum tfidf_vectors ratings t)\<^sup>2)"
    by (simp add: acc_keys acc_get)
  have nonneg: "\<not> (\<Sum>v\<leftarrow>map snd acc. v * v) < 0"
    unfolding not_less by (rule sum_list_nonneg) auto
  define norm where "norm = liked_norm tfidf_vectors ratings"
  define up where "up = map (\<lambda>(t, v). (t, v / norm)) acc"
  have root: "py_sqrt (\<Sum>v\<leftarrow>map snd acc. v * v)
      = Inr (sqrt (\<Sum>t\<in>liked_terms tfidf_vectors ratings. (liked_sum tfidf_vectors ratings t)\<^sup>2))"
    unfolding py_sqrt_def using nonneg by (simp only: sq if_False)
  have "build_user_profile tfidf_vectors ratings = Inr up"
    unfolding build_user_profile_def Let_def acc_def [symmetric] root
    using liked by (simp add: up_def norm_def liked_norm_def Let_def)
  moreover have "is_dict up" unfolding up_def by (simp add: is_dict_map_values acc_dict)
  moreover have "set (dict_keys up) = liked_terms tfidf_vectors ratings"
    unfolding up_def by (simp add: dict_keys_map_values acc_keys)
  moreover have "\<forall>t\<in>liked_terms tfidf_vectors ratings.
      map_of up t = Some (liked_sum tfidf_vectors ratings t / norm)"
  proof
    fix t assume "t \<in> liked_terms tfidf_vectors ratings"
    then have "t \<in> set (dict_keys acc)" by (simp add: acc_keys)
    from map_of_map_values [OF this, of "\<lambda>v. v / norm" 0]
    show "map_of up t = Some (liked_sum tfidf_vectors ratings t / norm)"
      by (simp add: up_def acc_get)
  qed
  ultimately show ?thesis unfolding norm_def by blast
qed

text \<open>
  C6. The profile builder takes the items rated 4 or more. When there is none it returns
  the empty vector, and the content predictor, given that vector, returns a score for
  every catalog item that is not rated, in catalog order, each score exactly 0.
  Otherwise (the vectors being dicts) its result is, term by term, the sum of the liked
  items' vectors divided by the Euclidean norm of that sum, a zero norm counting as 1.
\<close>

theorem profile_from_liked:
  "(\<forall>mid. mid \<in> set (liked_of ratings) \<longleftrightarrow> (\<exists>r. (mid, r) \<in> set ratings \<and> 4 \<le> r))
   \<and> (liked_of ratings = [] \<longrightarrow>
        build_user_profile tfidf_vectors ratings = Inr []
        \<and> predict_cb tfidf_vectors [] ratings
            = Inr (map (\<lambda>m. (m, 0)) (filter (\<lambda>m. \<not> dict_contains ratings m) movie_ids)))
   \<and> (liked_of ratings \<noteq> [] \<and> (\<forall>x\<in>set tfidf_vectors. is_dict (snd x)) \<longrightarrow>
        (\<exists>up. build_user_profile tfidf_vectors ratings = Inr up \<and> is_dict up
           \<and> set (dict_keys up) = liked_terms tfidf_vectors ratings
           \<and> (\<forall>t\<in>liked_terms tfidf_vectors ratings.
                map_of up t = Some (liked_sum tfidf_vectors ratings t
                                     / liked_norm tfidf_vectors ratings))))"
proof (intro conjI impI allI)
  show "mid \<in> set (liked_of ratings) \<longleftrightarrow> (\<exists>r. (mid, r) \<in> set ratings \<and> 4 \<le> r)" for mid
    by (rule liked_of_iff)
next
  assume "liked_of ratings = []"
  then show "build_user_profile tfidf_vectors ratings = Inr []"
    by (simp add: build_user_profile_def)
next
  show "predict_cb tfidf_vectors [] ratings
      = Inr (map (\<lambda>m. (m, 0)) (filter (\<lambda>m. \<not> dict_contains ratings m) movie_ids))"
    by (rule predict_cb_no_profile)
next
  assume "liked_of ratings \<noteq> [] \<and> (\<forall>x\<in>set tfidf_vectors. is_dict (snd x))"
  then show "\<exists>up. build_user_profile tfidf_vectors ratings = Inr up \<and> is_dict up
           \<and> set (dict_keys up) = liked_terms tfidf_vectors ratings
           \<and> (\<forall>t\<in>liked_terms tfidf_vectors ratings.
                map_of up t = Some (liked_sum tfidf_vectors ratings t
                                     / liked_norm tfidf_vectors ratings))"
    using build_user_profile_liked by blast
qed

lemma build_tfidf_is_dict: "\<forall>x\<in>set (build_tfidf movies). is_dict (snd x)"
proof
  fix x assume a: "x \<in> set (build_tfidf movies)"
  obtain mid vec where x: "x = (mid, vec)" by (cases x)
  from build_tfidf_entry [OF a [unfolded x]] show "is_dict (snd x)"
    by (auto simp: x tfidf_vec_is_dict)
qed

lemma liked_terms_inception:
  "liked_terms (build_tfidf MOVIES) [(1, 5)]
     = {''action'', ''sci-fi'', ''thriller'', ''dream'', ''heist'', ''mind-bending'', ''nolan''}"
  unfolding liked_terms_def tfidf_MOVIES by (simp add: liked_of_def dict_get_def dict_keys_def)

theorem profile_from_liked_witness:
  "liked_of [(1, 3)] = [] \<and> build_user_profile (build_tfidf MOVIES) [(1, 3)] = Inr []
   \<and> predict_cb (build_tfidf MOVIES) [] [(1, 3)] = Inr [(2, 0), (3, 0), (4, 0), (5, 0)]
   \<and> liked_of [(1, 5)] = [1]
   \<and> (\<exists>up. build_user_profile (build_tfidf MOVIES) [(1, 5)] = Inr up
         \<and> map_of up ''thriller'' = Some (liked_sum (build_tfidf MOVIES) [(1, 5)] ''thriller''
                                          / liked_norm (build_tfidf MOVIES) [(1, 5)]))"
proof -
  have none: "liked_of [(1, 3)] = []" and one: "liked_of [(1, 5)] = [1]"
    by (simp_all add: liked_of_def)
  from profile_from_liked [of "[(1, 3)]" "build_tfidf MOVIES"] none
  have 1: "build_user_profile (build_tfidf MOVIES) [(1, 3)] = Inr []"
    and "predict_cb (build_tfidf MOVIES) [] [(1, 3)]
      = Inr (map (\<lambda>m. (m, 0)) (filter (\<lambda>m. \<not> dict_contains [(1, 3::real)] m) movie_ids))"
    by blast+
  then have 2: "predict_cb (build_tfidf MOVIES) [] [(1, 3)] = Inr [(2, 0), (3, 0), (4, 0), (5, 0)]"
    by (simp add: movie_ids_def MOVIES_def dict_contains_def dict_keys_def)
  have "liked_of [(1, 5)] \<noteq> []" by (simp add: one)
  with profile_from_liked [of "[(1, 5)]" "build_tfidf MOVIES"] build_tfidf_is_dict [of MOVIES]
  obtain up where up: "build_user_profile (build_tfidf MOVIES) [(1, 5)] = Inr up"
    and all: "\<forall>t\<in>liked_terms (build_tfidf MOVIES) [(1, 5)].
                map_of up t = Some (liked_sum (build_tfidf MOVIES) [(1, 5)] t
                                     / liked_norm (build_tfidf MOVIES) [(1, 5)])" by blast
  have "''thriller'' \<in> liked_terms (build_tfidf MOVIES) [(1, 5)]"
    unfolding liked_terms_inception by simp
  from bspec [OF all this] none 1 2 one up show ?thesis by blast
qed

section \<open>The blender\<close>

lemma hybrid_loop_eq:
  "distinct ms \<Longrightarrow> set ms \<inter> fst ` set results = {} \<Longrightarrow>
   hybrid_loop ms cf cb \<alpha> results =
     results @ map (\<lambda>m. (m, \<alpha> * dict_get cf m 0 + (1 - \<alpha>) * dict_get cb m 0))
       (filter (\<lambda>m. dict_get cf m 0 \<noteq> 0 \<or> dict_get cb m 0 \<noteq> 0) ms)"
proof (induction ms arbitrary: results)
  case Nil
  then show ?case by simp
next
  case (Cons m ms)
  from Cons.prems have m: "m \<notin> fst ` set results" and ms: "distinct ms" "m \<notin> set ms"
    and disj: "set ms \<inter> fst ` set results = {}" by auto
  show ?case
  proof (cases "dict_get cf m 0 \<noteq> 0 \<or> dict_get cb m 0 \<noteq> 0")
    case True
    let ?r = "results @ [(m, \<alpha> * dict_get cf m 0 + (1 - \<alpha>) * dict_get cb m 0)]"
    have "set ms \<inter> fst ` set ?r = {}" using disj ms by auto
    from Cons.IH [OF ms(1) this] True m show ?thesis
      by (simp add: Let_def dict_set_new)
  next
    case False
    from Cons.IH [OF ms(1) disj] False show ?thesis by (simp add: Let_def)
  qed
qed

lemma hybrid_unsorted:
  "hybrid_loop movie_ids cf cb \<alpha> [] =
     map (\<lambda>m. (m, \<alpha> * dict_get cf m 0 + (1 - \<alpha>) * dict_get cb m 0))
       (filter (\<lambda>m. dict_get cf m 0 \<noteq> 0 \<or> dict_get cb m 0 \<noteq> 0) movie_ids)"
  using hybrid_loop_eq [OF distinct_movie_ids, of "[]"] by simp

lemma hybrid_unsorted_keys:
  "dict_keys (hybrid_loop movie_ids cf cb \<alpha> []) =
     filter (\<lambda>m. dict_get cf m 0 \<noteq> 0 \<or> dict_get cb m 0 \<noteq> 0) movie_ids"
  by (simp add: hybrid_unsorted dict_keys_def comp_def)

lemma hybrid_unsorted_is_dict: "is_dict (hybrid_loop movie_ids cf cb \<alpha> [])"
  by (simp add: is_dict_def hybrid_unsorted_keys distinct_movie_ids)

lemma hybrid_scores_keys:
  "set (dict_keys (hybrid_scores cf cb \<alpha>)) =
     {m \<in> set movie_ids. dict_get cf m 0 \<noteq> 0 \<or> dict_get cb m 0 \<noteq> 0}"
  by (simp add: hybrid_scores_def dict_keys_sorted_desc hybrid_unsorted_keys)

lemma hybrid_scores_is_dict: "is_dict (hybrid_scores cf cb \<alpha>)"
  by (simp add: hybrid_scores_def is_dict_sorted_desc hybrid_unsorted_is_dict)

lemma hybrid_scores_lookup:
  assumes "m \<in> set (dict_keys (hybrid_scores cf cb \<alpha>))"
  shows "map_of (hybrid_scores cf cb \<alpha>) m = Some (\<alpha> * dict_get cf m 0 + (1 - \<alpha>) * dict_get cb m 0)"
proof -
  let ?P = "\<lambda>m. dict_get cf m 0 \<noteq> 0 \<or> dict_get cb m 0 \<noteq> 0"
  from assms have m: "m \<in> set (filter ?P movie_ids)" by (simp add: hybrid_scores_keys)
  have "map_of (hybrid_scores cf cb \<alpha>) m = map_of (hybrid_loop movie_ids cf cb \<alpha> []) m"
    unfolding hybrid_scores_def by (simp only: map_of_sorted_desc [OF hybrid_unsorted_is_dict])
  also have "\<dots> = Some (\<alpha> * dict_get cf m 0 + (1 - \<alpha>) * dict_get cb m 0)"
    unfolding hybrid_unsorted using m by (simp add: map_of_map_restrict)
  finally show ?thesis .
qed

text \<open>
  C1 (amended). The blender's output is a dict whose keys are exactly the catalog items
  for which the collaborative score or the content score is non-zero, a missing score
  counting as 0; the score of each such item is \<open>0.6 * cf_score + 0.4 * cb_score\<close>.
  An item that is a key of an input map with both scores 0, or that is not in the
  catalog, is left out.
\<close>

theorem hybrid_scores_items:
  "is_dict (hybrid_scores cf cb 0.6)
   \<and> set (dict_keys (hybrid_scores cf cb 0.6)) =
       {m \<in> set movie_ids. dict_get cf m 0 \<noteq> 0 \<or> dict_get cb m 0 \<noteq> 0}
   \<and> (\<forall>m\<in>set (dict_keys (hybrid_scores cf cb 0.6)).
         map_of (hybrid_scores cf cb 0.6) m = Some (0.6 * dict_get cf m 0 + 0.4 * dict_get cb m 0))"
proof (intro conjI ballI)
  show "is_dict (hybrid_scores cf cb 0.6)" by (rule hybrid_scores_is_dict)
  show "set (dict_keys (hybrid_scores cf cb 0.6)) =
       {m \<in> set movie_ids. dict_get cf m 0 \<noteq> 0 \<or> dict_get cb m 0 \<noteq> 0}"
    by (rule hybrid_scores_keys)
next
  fix m assume "m \<in> set (dict_keys (hybrid_scores cf cb 0.6))"
  from hybrid_scores_lookup [OF this]
  show "map_of (hybrid_scores cf cb 0.6) m = Some (0.6 * dict_get cf m 0 + 0.4 * dict_get cb m 0)"
    by simp
qed

lemma hybrid_example:
  "hybrid_scores [(2, 5), (3, 5), (4, 5)] [(2, 0), (3, 0), (4, 0), (5, 0)] 0.6 = [(2, 3), (3, 3), (4, 3)]"
  by (simp add: hybrid_scores_def movie_ids_def MOVIES_def dict_get_def dict_set_def sorted_desc_def)

text \<open>
  As stated, C1 fails: with a rating below 4 the content predictor scores every
  unrated item 0, so item 5 is a key of the content map and yet not of the blend.
\<close>

theorem hybrid_scores_union_counterexample:
  "5 \<in> set (dict_keys [(2, 0), (3, 0), (4, 0), (5::int, 0::real)])
   \<and> 5 \<notin> set (dict_keys (hybrid_scores [(2, 5), (3, 5), (4, 5)] [(2, 0), (3, 0), (4, 0), (5, 0)] 0.6))"
  unfolding hybrid_example dict_keys_def by simp

theorem hybrid_scores_items_witness:
  "set (dict_keys (hybrid_scores [(2, 5), (3, 5), (4, 5)] [(2, 0), (3, 0), (4, 0), (5, 0)] 0.6)) = {2, 3, 4}
   \<and> map_of (hybrid_scores [(2, 5), (3, 5), (4, 5)] [(2, 0), (3, 0), (4, 0), (5, 0)] 0.6) 2 = Some 3"
  using hybrid_scores_items [of "[(2, 5), (3, 5), (4, 5)]" "[(2, 0), (3, 0), (4, 0), (5, 0)]"]
  unfolding hybrid_example dict_keys_def by simp

section \<open>The prompt booster\<close>

lemma find_movie_Inr: "find_movie mid = Inr m \<Longrightarrow> movie_id m = mid \<and> m \<in> set MOVIES"
  by (auto simp: find_movie_def find_Some_iff split: option.splits)

lemma find_movie_total: "mid \<in> set movie_ids \<Longrightarrow> \<exists>m. find_movie mid = Inr m"
  by (cases "find (\<lambda>m. movie_id m = mid) MOVIES")
     (auto simp: find_movie_def movie_ids_def find_None_iff)

lemma find_movie_error: "mid \<notin> set movie_ids \<Longrightarrow> find_movie mid = Inl StopIteration"
  by (cases "find (\<lambda>m. movie_id m = mid) MOVIES")
     (auto simp: find_movie_def movie_ids_def find_Some_iff)

lemma boost_loop_eq:
  "distinct (map fst hybrid) \<Longrightarrow> set (map fst hybrid) \<inter> fst ` set boosted = {} \<Longrightarrow>
   set (map fst hybrid) \<subseteq> set movie_ids \<Longrightarrow>
   boost_loop hybrid q boosted =
     Inr (boosted @ map (\<lambda>(mid, score). (mid, score + boost_of q mid)) hybrid)"
proof (induction hybrid arbitrary: boosted)
  case Nil
  then show ?case by simp
next
  case (Cons p hybrid)
  obtain mid score where p: "p = (mid, score)" by (cases p)
  from Cons.prems p have new: "mid \<notin> fst ` set boosted" and d: "distinct (map fst hybrid)"
    and notin: "mid \<notin> set (map fst hybrid)"
    and disj: "set (map fst hybrid) \<inter> fst ` set boosted = {}"
    and cat: "mid \<in> set movie_ids" "set (map fst hybrid) \<subseteq> set movie_ids" by auto
  from find_movie_total [OF cat(1)] obtain m where m: "find_movie mid = Inr m" ..
  let ?b = "boosted @ [(mid, score + boost_of q mid)]"
  have "set (map fst hybrid) \<inter> fst ` set ?b = {}" using disj notin by auto
  from Cons.IH [OF d this cat(2)] m new show ?case
    by (simp add: p boost_of_def dict_set_new)
qed

lemma boost_loop_error:
  "\<not> set (map fst hybrid) \<subseteq> set movie_ids \<Longrightarrow> boost_loop hybrid q boosted = Inl StopIteration"
proof (induction hybrid arbitrary: boosted)
  case Nil
  then show ?case by simp
next
  case (Cons p hybrid)
  obtain mid score where p: "p = (mid, score)" by (cases p)
  show ?case
  proof (cases "mid \<in> set movie_ids")
    case True
    from find_movie_total [OF this] obtain m where m: "find_movie mid = Inr m" ..
    from True Cons.prems p have "\<not> set (map fst hybrid) \<subseteq> set movie_ids" by auto
    from Cons.IH [OF this] m show ?thesis by (simp add: p)
  next
    case False
    from find_movie_error [OF this] show ?thesis by (simp add: p)
  qed
qed

lemma apply_prompt_boost_blank:
  "apply_prompt_boost hybrid None = Inr hybrid" "apply_prompt_boost hybrid (Some []) = Inr hybrid"
  by (simp_all add: apply_prompt_boost_def)

lemma apply_prompt_boost_query:
  assumes "is_dict hybrid" "set (dict_keys hybrid) \<subseteq> set movie_ids" "p \<noteq> []"
  shows "apply_prompt_boost hybrid (Some p) =
           Inr (sorted_desc (map (\<lambda>(mid, score). (mid, score + boost_of (py_lower p) mid)) hybrid))"
  using assms boost_loop_eq [of hybrid "[]" "py_lower p"]
  by (simp add: apply_prompt_boost_def is_dict_def dict_keys_def)

lemma apply_prompt_boost_Inr:
  assumes "apply_prompt_boost hybrid (Some p) = Inr out" "p \<noteq> []"
  shows "set (dict_keys hybrid) \<subseteq> set movie_ids"
proof (rule ccontr)
  assume "\<not> set (dict_keys hybrid) \<subseteq> set movie_ids"
  then have "boost_loop hybrid (py_lower p) [] = Inl StopIteration"
    unfolding dict_keys_def by (rule boost_loop_error)
  with assms show False by (simp add: apply_prompt_boost_def)
qed

text \<open>
  C2 (amended). When the query is absent (\<open>None\<close>) or the empty string, the prompt
  booster returns its input itself: the same items, the same scores, the same order.
\<close>

theorem apply_prompt_boost_no_query:
  "apply_prompt_boost hybrid None = Inr hybrid \<and> apply_prompt_boost hybrid (Some '''') = Inr hybrid"
  by (simp add: apply_prompt_boost_def)

theorem apply_prompt_boost_no_query_witness:
  "apply_prompt_boost [(2, 3), (3, 3), (4, 3)] None = Inr [(2, 3), (3, 3), (4, 3)]
   \<and> apply_prompt_boost [(2, 3), (3, 3), (4, 3)] (Some '''') = Inr [(2, 3), (3, 3), (4, 3)]"
  by (rule apply_prompt_boost_no_query)

lemma boost_space_example:
  "apply_prompt_boost [(2, 3), (3, 3), (4, 3)] (Some '' '') = Inr [(2, 5), (3, 5), (4, 5)]"
  by code_simp

lemma boost_scifi_example:
  "apply_prompt_boost [(2, 3), (3, 3), (4, 3)] (Some ''sci-fi'') = Inr [(3, 5), (4, 5), (2, 3)]"
  by code_simp

text \<open>
  As stated, C2 fails for a whitespace-only query: \<^verbatim>\<open>not " "\<close> is false, the
  query \<open>'' ''\<close> is a substring of every haystack (the parts are joined by spaces), and
  every score grows by 2.
\<close>

theorem apply_prompt_boost_whitespace_counterexample:
  "apply_prompt_boost [(2, 3), (3, 3), (4, 3)] (Some '' '') = Inr [(2, 5), (3, 5), (4, 5)]
   \<and> apply_prompt_boost [(2, 3), (3, 3), (4, 3)] (Some '' '') \<noteq> Inr [(2, 3), (3, 3), (4, 3)]"
  unfolding boost_space_example by simp

section \<open>The order of the score maps\<close>

lemma subseq_keys_filter_map:
  assumes "\<And>x. fst (h x) = fst x"
  shows "subseq (map fst (filter Q (map h xs))) (map fst xs)"
  by (induction xs) (auto simp: assms)

lemma hybrid_ties_catalog_order:
  "subseq (dict_keys (filter (\<lambda>x. snd x = s) (hybrid_scores cf cb \<alpha>))) movie_ids"
proof -
  let ?P = "\<lambda>m. dict_get cf m 0 \<noteq> 0 \<or> dict_get cb m 0 \<noteq> 0"
  let ?h = "\<lambda>m. (m, \<alpha> * dict_get cf m 0 + (1 - \<alpha>) * dict_get cb m 0)"
  have "dict_keys (filter (\<lambda>x. snd x = s) (hybrid_scores cf cb \<alpha>))
          = map fst (filter (\<lambda>x. snd x = s) (map ?h (filter ?P movie_ids)))"
    by (simp add: hybrid_scores_def ties_sorted_desc hybrid_unsorted dict_keys_def)
  also have "\<dots> = filter (\<lambda>m. snd (?h m) = s) (filter ?P movie_ids)"
    by (simp add: filter_map comp_def)
  finally show ?thesis by simp
qed

lemma boost_ties_input_order:
  assumes "is_dict hybrid" "p \<noteq> []" "apply_prompt_boost hybrid (Some p) = Inr out"
  shows "subseq (dict_keys (filter (\<lambda>x. snd x = s) out)) (dict_keys hybrid)"
    and "sorted_wrt (\<lambda>x y. snd y \<le> snd x) out"
proof -
  let ?h = "\<lambda>(mid, score). (mid, score + boost_of (py_lower p) mid)"
  from apply_prompt_boost_Inr [OF assms(3,2)]
  have "set (dict_keys hybrid) \<subseteq> set movie_ids" .
  from apply_prompt_boost_query [OF assms(1) this assms(2)] assms(3)
  have out: "out = sorted_desc (map ?h hybrid)" by simp
  have "subseq (map fst (filter (\<lambda>x. snd x = s) (map ?h hybrid))) (map fst hybrid)"
    by (rule subseq_keys_filter_map) auto
  then show "subseq (dict_keys (filter (\<lambda>x. snd x = s) out)) (dict_keys hybrid)"
    by (simp add: out ties_sorted_desc dict_keys_def)
  show "sorted_wrt (\<lambda>x y. snd y \<le> snd x) out"
    unfolding out by (rule descending_sorted_desc)
qed

lemma predict_cf_catalog_order:
  assumes "predict_cf ratings community k = Inr cf"
  shows "subseq (dict_keys cf) movie_ids"
  using predict_cf_keys [OF assms] by auto

lemma predict_cb_catalog_order:
  assumes "predict_cb tfidf_vectors user_profile ratings = Inr cb"
  shows "subseq (dict_keys cb) movie_ids"
  using predict_cb_keys [OF assms] by auto

lemma cb_no_profile_example:
  "predict_cb [] [] [(1, 5)] = Inr [(2, 0), (3, 0), (4, 0), (5, 0)]"
  by (simp add: predict_cb_def MOVIES_def dict_contains_def dict_keys_def cosine_sim_def
      cosine_keys_def dict_get_def dict_set_def)

text \<open>
  C3 (amended). The blender's output is ordered by non-increasing score, items of equal
  score in catalog order. For a non-empty query the prompt booster's output is ordered by
  non-increasing boosted score, items of equal score in the order of its input; without
  a query it is the input itself. The two predictors do not sort: their outputs list the
  items in catalog order, whatever the scores.
\<close>

theorem score_map_order:
  "sorted_wrt (\<lambda>x y. snd y \<le> snd x) (hybrid_scores cf_scores cb_scores \<alpha>)
   \<and> (\<forall>s. subseq (dict_keys (filter (\<lambda>x. snd x = s) (hybrid_scores cf_scores cb_scores \<alpha>)))
              movie_ids)
   \<and> (is_dict hybrid \<and> p \<noteq> [] \<and> apply_prompt_boost hybrid (Some p) = Inr out \<longrightarrow>
        sorted_wrt (\<lambda>x y. snd y \<le> snd x) out
        \<and> (\<forall>s. subseq (dict_keys (filter (\<lambda>x. snd x = s) out)) (dict_keys hybrid)))
   \<and> apply_prompt_boost hybrid None = Inr hybrid
   \<and> apply_prompt_boost hybrid (Some []) = Inr hybrid
   \<and> (predict_cf ratings community k = Inr cf \<longrightarrow> subseq (dict_keys cf) movie_ids)
   \<and> (predict_cb tfidf_vectors user_profile ratings' = Inr cb \<longrightarrow> subseq (dict_keys cb) movie_ids)"
proof (intro conjI allI impI)
  show "apply_prompt_boost hybrid None = Inr hybrid"
    and "apply_prompt_boost hybrid (Some []) = Inr hybrid"
    by (rule apply_prompt_boost_blank)+
next
  show "sorted_wrt (\<lambda>x y. snd y \<le> snd x) (hybrid_scores cf_scores cb_scores \<alpha>)"
    unfolding hybrid_scores_def by (rule descending_sorted_desc)
  show "subseq (dict_keys (filter (\<lambda>x. snd x = s) (hybrid_scores cf_scores cb_scores \<alpha>))) movie_ids"
    for s by (rule hybrid_ties_catalog_order)
next
  assume "is_dict hybrid \<and> p \<noteq> [] \<and> apply_prompt_boost hybrid (Some p) = Inr out"
  then show "sorted_wrt (\<lambda>x y. snd y \<le> snd x) out"
    using boost_ties_input_order(2) by blast
next
  fix s
  assume "is_dict hybrid \<and> p \<noteq> [] \<and> apply_prompt_boost hybrid (Some p) = Inr out"
  then show "subseq (dict_keys (filter (\<lambda>x. snd x = s) out)) (dict_keys hybrid)"
    using boost_ties_input_order(1) by blast
next
  assume "predict_cf ratings community k = Inr cf"
  then show "subseq (dict_keys cf) movie_ids" by (rule predict_cf_catalog_order)
next
  assume "predict_cb tfidf_vectors user_profile ratings' = Inr cb"
  then show "subseq (dict_keys cb) movie_ids" by (rule predict_cb_catalog_order)
qed

theorem score_map_order_witness:
  "sorted_wrt (\<lambda>x y. snd y \<le> snd x) (hybrid_scores [(2, 5), (3, 5), (4, 5)] [(2, 0), (3, 0), (4, 0), (5, 0)] 0.6)
   \<and> is_dict [(2::int, 3::real), (3, 3), (4, 3)]
   \<and> apply_prompt_boost [(2, 3), (3, 3), (4, 3)] (Some ''sci-fi'') = Inr [(3, 5), (4, 5), (2, 3)]
   \<and> sorted_wrt (\<lambda>x y. snd y \<le> snd x) [(3::int, 5::real), (4, 5), (2, 3)]
   \<and> subseq (dict_keys (filter (\<lambda>x. snd x = 5) [(3::int, 5::real), (4, 5), (2, 3)]))
        (dict_keys [(2::int, 3::real), (3, 3), (4, 3)])
   \<and> predict_cf [(1, 5)] COMMUNITY 3 = Inr [(2, 5), (3, 5), (4, 5)]
   \<and> subseq (dict_keys [(2::int, 5::real), (3, 5), (4, 5)]) movie_ids
   \<and> predict_cb [] [] [(1, 5)] = Inr [(2, 0), (3, 0), (4, 0), (5, 0)]
   \<and> subseq (dict_keys [(2::int, 0::real), (3, 0), (4, 0), (5, 0)]) movie_ids"
  using score_map_order [of "[(2, 5), (3, 5), (4, 5)]" "[(2, 0), (3, 0), (4, 0), (5, 0)]" "0.6"
      "[(2, 3), (3, 3), (4, 3)]" "''sci-fi''" "[(3, 5), (4, 5), (2, 3)]"
      "[(1, 5)]" COMMUNITY 3 "[(2, 5), (3, 5), (4, 5)]"
      "[]" "[]" "[(1, 5)]" "[(2, 0), (3, 0), (4, 0), (5, 0)]"]
    boost_scifi_example cf_pipeline_example cb_no_profile_example
  by (simp add: is_dict_def dict_keys_def)

section \<open>The pipeline and the request handler\<close>

lemma build_user_profile_total: "\<exists>up. build_user_profile tfidf_vectors ratings = Inr up"
proof -
  have "\<not> (\<Sum>v\<leftarrow>map snd (acc_loop (liked_of ratings) tfidf_vectors []). v * v) < 0"
    unfolding not_less by (rule sum_list_nonneg) auto
  then show ?thesis by (simp add: build_user_profile_def py_sqrt_def Let_def)
qed

lemma pipeline_hybrid_eq:
  "\<exists>up cf cb. build_user_profile (build_tfidf MOVIES) ratings = Inr up
     \<and> predict_cf ratings COMMUNITY 3 = Inr cf
     \<and> predict_cb (build_tfidf MOVIES) up ratings = Inr cb
     \<and> pipeline_hybrid ratings = Inr (hybrid_scores cf cb 0.6)"
proof -
  obtain up where up: "build_user_profile (build_tfidf MOVIES) ratings = Inr up"
    using build_user_profile_total by blast
  obtain cf where cf: "predict_cf ratings COMMUNITY 3 = Inr cf"
    using predict_cf_eq by blast
  obtain cb where cb: "predict_cb (build_tfidf MOVIES) up ratings = Inr cb"
    using predict_cb_eq by blast
  have "pipeline_hybrid ratings = Inr (hybrid_scores cf cb 0.6)"
    by (simp add: pipeline_hybrid_def up cf cb)
  with up cf cb show ?thesis by blast
qed

lemma hybrid_scores_in_catalog: "set (dict_keys (hybrid_scores cf cb \<alpha>)) \<subseteq> set movie_ids"
  by (auto simp: hybrid_scores_keys)

lemma apply_prompt_boost_keys:
  assumes "is_dict hybrid" "apply_prompt_boost hybrid prompt = Inr out"
  shows "set (dict_keys out) = set (dict_keys hybrid)"
proof (cases "prompt = None \<or> prompt = Some []")
  case True
  with assms(2) show ?thesis by (auto simp: apply_prompt_boost_blank)
next
  case False
  then obtain p where p: "prompt = Some p" "p \<noteq> []" by (cases prompt) auto
  from assms(2) have cat: "set (dict_keys hybrid) \<subseteq> set movie_ids"
    unfolding p(1) by (rule apply_prompt_boost_Inr [OF _ p(2)])
  from apply_prompt_boost_query [OF assms(1) cat p(2)] assms(2)
  have "out = sorted_desc (map (\<lambda>(mid, score). (mid, score + boost_of (py_lower p) mid)) hybrid)"
    by (simp add: p(1))
  moreover have "map fst (map (\<lambda>(mid, score). (mid, score + boost_of (py_lower p) mid)) hybrid)
      = map fst hybrid" by (induction hybrid) auto
  ultimately show ?thesis by (simp add: dict_keys_sorted_desc) (simp add: dict_keys_def)
qed

lemma apply_prompt_boost_total:
  assumes "is_dict hybrid" "set (dict_keys hybrid) \<subseteq> set movie_ids"
  shows "\<exists>out. apply_prompt_boost hybrid prompt = Inr out"
proof (cases "prompt = None \<or> prompt = Some []")
  case True
  then show ?thesis by (auto simp: apply_prompt_boost_blank)
next
  case False
  then obtain p where p: "prompt = Some p" "p \<noteq> []" by (cases prompt) auto
  from apply_prompt_boost_query [OF assms p(2)] show ?thesis by (simp add: p(1))
qed

lemma recs_loop_Inr:
  "recs_loop boosted prompt = Inr rs \<Longrightarrow>
   list_all2 (\<lambda>(mid, score) (m, s, flag). find_movie mid = Inr m \<and> s = score
                \<and> flag = py_in (py_lower prompt) (haystack m)) boosted rs"
proof (induction boosted arbitrary: rs)
  case Nil
  then show ?case by simp
next
  case (Cons p boosted)
  obtain mid score where p: "p = (mid, score)" by (cases p)
  from Cons.prems obtain m rs' where m: "find_movie mid = Inr m"
    and rs': "recs_loop boosted prompt = Inr rs'"
    and rs: "rs = (m, score, py_in (py_lower prompt) (haystack m)) # rs'"
    by (auto simp: p Let_def split: sum.splits)
  from Cons.IH [OF rs'] m show ?case by (simp add: p rs)
qed

lemma recs_loop_total:
  "set (map fst boosted) \<subseteq> set movie_ids \<Longrightarrow> \<exists>rs. recs_loop boosted prompt = Inr rs"
proof (induction boosted)
  case Nil
  then show ?case by simp
next
  case (Cons p boosted)
  obtain mid score where p: "p = (mid, score)" by (cases p)
  from Cons.prems p have "mid \<in> set movie_ids" by simp
  from find_movie_total [OF this] obtain m where m: "find_movie mid = Inr m" ..
  from Cons obtain rs where "recs_loop boosted prompt = Inr rs" by auto
  with m show ?case by (simp add: p Let_def)
qed

lemma recs_loop_ids:
  assumes "recs_loop boosted prompt = Inr rs"
  shows "map (\<lambda>r. (movie_id (fst r), fst (snd r))) rs = boosted"
  using recs_loop_Inr [OF assms]
  by (induction boosted rs rule: list_all2_induct) (auto dest: find_movie_Inr)

lemma recs_loop_flags:
  assumes "recs_loop boosted prompt = Inr rs" "r \<in> set rs"
  shows "snd (snd r) = py_in (py_lower prompt) (haystack (fst r))"
  using recs_loop_Inr [OF assms(1)] assms(2)
  by (induction boosted rs rule: list_all2_induct) auto

lemma index_post_Inr:
  assumes "index_post name_field (Some rating) prompt = Inr pg" "recs pg = Some rs"
  shows "\<exists>mv hybrid boosted.
           find (\<lambda>m. py_in (py_lower (py_strip name_field)) (py_lower (title m))) MOVIES = Some mv
         \<and> pipeline_hybrid [(movie_id mv, real_of_int rating)] = Inr hybrid
         \<and> apply_prompt_boost hybrid (Some prompt) = Inr boosted
         \<and> recs_loop (take 5 boosted) prompt = Inr rs"
  using assms
  by (auto simp: index_post_def Let_def split: option.splits sum.splits)

lemma index_post_total:
  "\<exists>pg. index_post name_field (Some rating) prompt = Inr pg
     \<and> (recs pg = None \<longleftrightarrow>
          find (\<lambda>m. py_in (py_lower (py_strip name_field)) (py_lower (title m))) MOVIES = None)"
proof (cases "find (\<lambda>m. py_in (py_lower (py_strip name_field)) (py_lower (title m))) MOVIES")
  case None
  then show ?thesis by (simp add: index_post_def Let_def)
next
  case (Some mv)
  from pipeline_hybrid_eq [of "[(movie_id mv, real_of_int rating)]"]
  obtain cf cb where h: "pipeline_hybrid [(movie_id mv, real_of_int rating)]
      = Inr (hybrid_scores cf cb 0.6)" by blast
  from apply_prompt_boost_total [OF hybrid_scores_is_dict hybrid_scores_in_catalog]
  obtain boosted where b: "apply_prompt_boost (hybrid_scores cf cb 0.6) (Some prompt) = Inr boosted"
    by blast
  from apply_prompt_boost_keys [OF hybrid_scores_is_dict b] hybrid_scores_in_catalog
  have "set (dict_keys boosted) \<subseteq> set movie_ids" by simp
  then have "set (map fst (take 5 boosted)) \<subseteq> set movie_ids"
    using set_take_subset [of 5 boosted] by (auto simp: dict_keys_def)
  from recs_loop_total [OF this] obtain rs where "recs_loop (take 5 boosted) prompt = Inr rs" ..
  with Some h b show ?thesis by (simp add: index_post_def Let_def)
qed

section \<open>No self-recommendation\<close>

lemma predict_cf_unrated:
  assumes "predict_cf ratings community k = Inr cf"
  shows "set (dict_keys cf) \<inter> set (dict_keys ratings) = {}"
  using predict_cf_keys [OF assms] by (auto simp: dict_contains_def)

lemma predict_cb_unrated:
  assumes "predict_cb tfidf_vectors user_profile ratings = Inr cb"
  shows "set (dict_keys cb) \<inter> set (dict_keys ratings) = {}"
  using predict_cb_keys [OF assms] by (auto simp: dict_contains_def)

lemma hybrid_scores_unrated:
  assumes "set (dict_keys cf) \<inter> set (dict_keys ratings) = {}"
    and "set (dict_keys cb) \<inter> set (dict_keys ratings) = {}"
  shows "set (dict_keys (hybrid_scores cf cb \<alpha>)) \<inter> set (dict_keys ratings) = {}"
proof -
  have "set (dict_keys (hybrid_scores cf cb \<alpha>)) \<subseteq> set (dict_keys cf) \<union> set (dict_keys cb)"
    by (auto simp: hybrid_scores_keys dest: dict_get_in_keys)
  with assms show ?thesis by blast
qed

lemma pipeline_hybrid_unrated:
  assumes "pipeline_hybrid ratings = Inr hybrid"
  shows "set (dict_keys hybrid) \<inter> set (dict_keys ratings) = {}"
    and "is_dict hybrid" and "set (dict_keys hybrid) \<subseteq> set movie_ids"
proof -
  from pipeline_hybrid_eq [of ratings] obtain up cf cb
    where cf: "predict_cf ratings COMMUNITY 3 = Inr cf"
      and cb: "predict_cb (build_tfidf MOVIES) up ratings = Inr cb"
      and h: "pipeline_hybrid ratings = Inr (hybrid_scores cf cb 0.6)" by blast
  from h assms have hybrid: "hybrid = hybrid_scores cf cb 0.6" by simp
  show "set (dict_keys hybrid) \<inter> set (dict_keys ratings) = {}"
    unfolding hybrid
    by (rule hybrid_scores_unrated [OF predict_cf_unrated [OF cf] predict_cb_unrated [OF cb]])
  show "is_dict hybrid" unfolding hybrid by (rule hybrid_scores_is_dict)
  show "set (dict_keys hybrid) \<subseteq> set movie_ids" unfolding hybrid by (rule hybrid_scores_in_catalog)
qed

lemma index_post_unrated:
  assumes "index_post name_field (Some rating) prompt = Inr pg" "recs pg = Some rs"
  shows "\<exists>mv. find (\<lambda>m. py_in (py_lower (py_strip name_field)) (py_lower (title m))) MOVIES = Some mv
           \<and> movie_id mv \<notin> (\<lambda>r. movie_id (fst r)) ` set rs"
proof -
  from index_post_Inr [OF assms] obtain mv hybrid boosted
    where mv: "find (\<lambda>m. py_in (py_lower (py_strip name_field)) (py_lower (title m))) MOVIES = Some mv"
      and h: "pipeline_hybrid [(movie_id mv, real_of_int rating)] = Inr hybrid"
      and b: "apply_prompt_boost hybrid (Some prompt) = Inr boosted"
      and rs: "recs_loop (take 5 boosted) prompt = Inr rs" by blast
  from pipeline_hybrid_unrated(1) [OF h] have "movie_id mv \<notin> set (dict_keys hybrid)"
    by (simp add: dict_keys_def)
  with apply_prompt_boost_keys [OF pipeline_hybrid_unrated(2) [OF h] b]
  have "movie_id mv \<notin> set (dict_keys boosted)" by simp
  then have "movie_id mv \<notin> fst ` set (take 5 boosted)"
    using set_take_subset [of 5 boosted] by (auto simp: dict_keys_def)
  moreover have "fst ` set (take 5 boosted) = (\<lambda>r. movie_id (fst r)) ` set rs"
  proof -
    have "map fst (take 5 boosted) = map fst (map (\<lambda>r. (movie_id (fst r), fst (snd r))) rs)"
      by (simp only: recs_loop_ids [OF rs])
    also have "\<dots> = map (\<lambda>r. movie_id (fst r)) rs" by (simp add: comp_def)
    finally have "set (map fst (take 5 boosted)) = set (map (\<lambda>r. movie_id (fst r)) rs)" by simp
    then show ?thesis by simp
  qed
  ultimately show ?thesis using mv by simp
qed

text \<open>
  C8. An item that is a key of the ratings is a key neither of the collaborative
  predictor's output, nor of the content predictor's, nor of their blend, nor of the
  prompt booster's output; and the movie a request rates is not among the
  recommendations the handler returns.
\<close>

theorem no_self_recommendation:
  "(predict_cf ratings community k = Inr cf \<longrightarrow> set (dict_keys cf) \<inter> set (dict_keys ratings) = {})
   \<and> (predict_cb tfidf_vectors user_profile ratings = Inr cb \<longrightarrow>
        set (dict_keys cb) \<inter> set (dict_keys ratings) = {})
   \<and> (predict_cf ratings community k = Inr cf
        \<and> predict_cb tfidf_vectors user_profile ratings = Inr cb \<longrightarrow>
        set (dict_keys (hybrid_scores cf cb \<alpha>)) \<inter> set (dict_keys ratings) = {}
        \<and> (apply_prompt_boost (hybrid_scores cf cb \<alpha>) prompt = Inr out \<longrightarrow>
             set (dict_keys out) \<inter> set (dict_keys ratings) = {}))
   \<and> (index_post name_field (Some rating) query = Inr pg \<and> recs pg = Some rs \<longrightarrow>
        (\<exists>mv. find (\<lambda>m. py_in (py_lower (py_strip name_field)) (py_lower (title m))) MOVIES = Some mv
           \<and> movie_id mv \<notin> (\<lambda>r. movie_id (fst r)) ` set rs))"
proof (intro conjI impI)
  assume "predict_cf ratings community k = Inr cf"
  then show "set (dict_keys cf) \<inter> set (dict_keys ratings) = {}" by (rule predict_cf_unrated)
next
  assume "predict_cb tfidf_vectors user_profile ratings = Inr cb"
  then show "set (dict_keys cb) \<inter> set (dict_keys ratings) = {}" by (rule predict_cb_unrated)
next
  assume a: "predict_cf ratings community k = Inr cf
        \<and> predict_cb tfidf_vectors user_profile ratings = Inr cb"
  then show h: "set (dict_keys (hybrid_scores cf cb \<alpha>)) \<inter> set (dict_keys ratings) = {}"
    using hybrid_scores_unrated predict_cf_unrated predict_cb_unrated by blast
  assume "apply_prompt_boost (hybrid_scores cf cb \<alpha>) prompt = Inr out"
  from apply_prompt_boost_keys [OF hybrid_scores_is_dict this] h
  show "set (dict_keys out) \<inter> set (dict_keys ratings) = {}" by simp
next
  assume "index_post name_field (Some rating) query = Inr pg \<and> recs pg = Some rs"
  then show "\<exists>mv. find (\<lambda>m. py_in (py_lower (py_strip name_field)) (py_lower (title m))) MOVIES = Some mv
           \<and> movie_id mv \<notin> (\<lambda>r. movie_id (fst r)) ` set rs"
    using index_post_unrated by blast
qed

lemma find_inception:
  "find (\<lambda>m. py_in (py_lower (py_strip ''Inception'')) (py_lower (title m))) MOVIES = Some (MOVIES ! 0)"
  by code_simp

lemma movie_id_inception: "movie_id (MOVIES ! 0) = 1"
  by code_simp

theorem no_self_recommendation_witness:
  "\<exists>cf cb out pg rs.
     predict_cf [(1, 5)] COMMUNITY 3 = Inr cf
     \<and> predict_cb [] [] [(1, 5)] = Inr cb
     \<and> apply_prompt_boost (hybrid_scores cf cb 0.6) (Some ''sci-fi'') = Inr out
     \<and> 1 \<notin> set (dict_keys cf) \<and> 1 \<notin> set (dict_keys cb) \<and> 1 \<notin> set (dict_keys out)
     \<and> index_post ''Inception'' (Some 5) ''sci-fi'' = Inr pg \<and> recs pg = Some rs
     \<and> 1 \<notin> (\<lambda>r. movie_id (fst r)) ` set rs"
proof -
  let ?cf = "[(2::int, 5::real), (3, 5), (4, 5)]"
  let ?cb = "[(2::int, 0::real), (3, 0), (4, 0), (5, 0)]"
  have cf: "predict_cf [(1, 5)] COMMUNITY 3 = Inr ?cf" by (rule cf_pipeline_example)
  have cb: "predict_cb [] [] [(1, 5)] = Inr ?cb" by (rule cb_no_profile_example)
  have out: "apply_prompt_boost (hybrid_scores ?cf ?cb 0.6) (Some ''sci-fi'')
              = Inr [(3, 5), (4, 5), (2, 3)]"
    unfolding hybrid_example by (rule boost_scifi_example)
  from index_post_total [of "''Inception''" 5 "''sci-fi''"] find_inception
  obtain pg rs where pg: "index_post ''Inception'' (Some 5) ''sci-fi'' = Inr pg" "recs pg = Some rs"
    by auto
  note t = no_self_recommendation [of "[(1, 5)]" COMMUNITY 3 ?cf "[]" "[]" ?cb "0.6"
      "Some ''sci-fi''" "[(3, 5), (4, 5), (2, 3)]" "''Inception''" 5 "''sci-fi''" pg rs]
  from t cf have 1: "1 \<notin> set (dict_keys ?cf)" by (simp add: dict_keys_def)
  from t cb have 2: "1 \<notin> set (dict_keys ?cb)" by (simp add: dict_keys_def)
  from t cf cb out have 3: "1 \<notin> set (dict_keys [(3::int, 5::real), (4, 5), (2, 3)])"
    by (simp add: dict_keys_def)
  from t pg find_inception movie_id_inception
  have 4: "1 \<notin> (\<lambda>r. movie_id (fst r)) ` set rs" by auto
  from cf cb out 1 2 3 4 pg show ?thesis by blast
qed

section \<open>The boosted flag under an empty prompt\<close>

lemma py_in_empty: "py_in [] hay"
  by (cases hay) simp_all

lemma pipeline_inception_keys:
  assumes "pipeline_hybrid [(1, 5)] = Inr hybrid"
  shows "{2, 3, 4} \<subseteq> set (dict_keys hybrid)"
proof -
  from pipeline_hybrid_eq [of "[(1, 5)]"] obtain up cf cb
    where cf: "predict_cf [(1, 5)] COMMUNITY 3 = Inr cf"
      and h: "pipeline_hybrid [(1, 5)] = Inr (hybrid_scores cf cb 0.6)" by blast
  from cf have cf': "cf = [(2, 5), (3, 5), (4, 5)]" unfolding cf_pipeline_example by simp
  from h assms have "hybrid = hybrid_scores cf cb 0.6" by simp
  then show ?thesis
    by (simp add: hybrid_scores_keys cf' dict_get_def movie_ids_def MOVIES_def)
qed

text \<open>
  C10. With the empty string as prompt, the flag the caller computes is true of every
  item (the empty string is a substring of every haystack) while the booster returns the
  score map it is given. So whenever the handler answers a POST request whose prompt is
  empty with recommendations, they are the first five blended items with their blended
  scores, and the boosted flag of every one of them is true.
\<close>

theorem empty_prompt_flags:
  "(\<forall>m. py_in (py_lower '''') (haystack m))
   \<and> apply_prompt_boost scores (Some '''') = Inr scores
   \<and> (index_post name_field (Some rating) '''' = Inr pg \<and> recs pg = Some rs \<longrightarrow>
          (\<exists>mv hybrid.
             find (\<lambda>m. py_in (py_lower (py_strip name_field)) (py_lower (title m))) MOVIES = Some mv
             \<and> pipeline_hybrid [(movie_id mv, real_of_int rating)] = Inr hybrid
             \<and> apply_prompt_boost hybrid (Some '''') = Inr hybrid
             \<and> map (\<lambda>r. (movie_id (fst r), fst (snd r))) rs = take 5 hybrid
             \<and> (\<forall>r\<in>set rs. snd (snd r))))"
proof (intro conjI impI allI)
  show "py_in (py_lower '''') (haystack m)" for m
    by (simp add: py_lower_def py_in_empty)
next
  show "apply_prompt_boost scores (Some '''') = Inr scores"
    by (simp add: apply_prompt_boost_blank)
next
  assume "index_post name_field (Some rating) '''' = Inr pg \<and> recs pg = Some rs"
  then have pg: "index_post name_field (Some rating) '''' = Inr pg"
    and rs: "recs pg = Some rs" by simp_all
  show "\<exists>mv hybrid.
             find (\<lambda>m. py_in (py_lower (py_strip name_field)) (py_lower (title m))) MOVIES = Some mv
             \<and> pipeline_hybrid [(movie_id mv, real_of_int rating)] = Inr hybrid
             \<and> apply_prompt_boost hybrid (Some '''') = Inr hybrid
             \<and> map (\<lambda>r. (movie_id (fst r), fst (snd r))) rs = take 5 hybrid
             \<and> (\<forall>r\<in>set rs. snd (snd r))"
  proof -
    from index_post_Inr [OF pg rs] obtain mv hybrid boosted
      where mv: "find (\<lambda>m. py_in (py_lower (py_strip name_field)) (py_lower (title m))) MOVIES = Some mv"
        and h: "pipeline_hybrid [(movie_id mv, real_of_int rating)] = Inr hybrid"
        and b: "apply_prompt_boost hybrid (Some '''') = Inr boosted"
        and l: "recs_loop (take 5 boosted) '''' = Inr rs" by blast
    from b have boosted: "boosted = hybrid" by (simp add: apply_prompt_boost_blank)
    have flags: "\<forall>r\<in>set rs. snd (snd r)"
      using recs_loop_flags [OF l] by (simp add: py_lower_def py_in_empty)
    from recs_loop_ids [OF l] have "map (\<lambda>r. (movie_id (fst r), fst (snd r))) rs = take 5 hybrid"
      by (simp add: boosted)
    with mv h b flags show ?thesis unfolding boosted by blast
  qed
qed

theorem empty_prompt_flags_witness:
  "\<exists>pg rs. index_post ''Inception'' (Some 5) '''' = Inr pg \<and> recs pg = Some rs
     \<and> rs \<noteq> [] \<and> list_all (\<lambda>r. snd (snd r)) rs"
proof -
  from index_post_total [of "''Inception''" 5 "''''"] find_inception
  obtain pg rs where pg: "index_post ''Inception'' (Some 5) '''' = Inr pg"
    and rs: "recs pg = Some rs" by auto
  from empty_prompt_flags [of "[]" "''Inception''" 5 pg rs] pg rs
  have "\<exists>mv hybrid.
             find (\<lambda>m. py_in (py_lower (py_strip ''Inception'')) (py_lower (title m))) MOVIES = Some mv
             \<and> pipeline_hybrid [(movie_id mv, real_of_int 5)] = Inr hybrid
             \<and> apply_prompt_boost hybrid (Some '''') = Inr hybrid
             \<and> map (\<lambda>r. (movie_id (fst r), fst (snd r))) rs = take 5 hybrid
             \<and> (\<forall>r\<in>set rs. snd (snd r))" by blast
  with find_inception movie_id_inception obtain hybrid
    where h: "pipeline_hybrid [(1, 5)] = Inr hybrid"
      and ids: "map (\<lambda>r. (movie_id (fst r), fst (snd r))) rs = take 5 hybrid"
      and flags: "\<forall>r\<in>set rs. snd (snd r)" by auto
  from pipeline_inception_keys [OF h] have "hybrid \<noteq> []" by (auto simp: dict_keys_def)
  with ids have "rs \<noteq> []" by auto
  with pg rs flags show ?thesis by (auto simp: list_all_iff)
qed

section \<open>Scenario: rating Inception 5, query sci-fi\<close>

lemma sum_list_member_le:
  fixes f :: "'a \<Rightarrow> real"
  assumes "\<forall>x\<in>set xs. 0 \<le> f x" "k \<in> set xs"
  shows "f k \<le> (\<Sum>x\<leftarrow>xs. f x)"
  using assms
proof (induction xs)
  case Nil
  then show ?case by simp
next
  case (Cons x xs)
  have rest: "0 \<le> (\<Sum>x\<leftarrow>xs. f x)"
    by (rule sum_list_nonneg) (use Cons.prems in auto)
  show ?case
  proof (cases "k = x")
    case True
    with rest show ?thesis by simp
  next
    case False
    with Cons.prems have "k \<in> set xs" by simp
    with Cons have "f k \<le> (\<Sum>x\<leftarrow>xs. f x)" by simp
    moreover have "0 \<le> f x" using Cons.prems by simp
    ultimately show ?thesis by simp
  qed
qed

lemma cosine_val_pos:
  assumes a: "\<forall>v\<in>snd ` set a. (0::real) \<le> v" and b: "\<forall>v\<in>snd ` set b. (0::real) \<le> v"
    and ka: "0 < dict_get a k 0" and kb: "0 < dict_get b k 0"
  shows "0 < cosine_val a b"
proof -
  let ?ks = "cosine_keys a b"
  from ka have "dict_get a k 0 \<noteq> 0" by simp
  then have "k \<in> set (dict_keys a)" by (rule dict_get_in_keys)
  then have k: "k \<in> set ?ks" by (simp add: cosine_keys_def)
  have "dict_get a k 0 * dict_get b k 0 \<le> cosine_dot a b"
    unfolding cosine_dot_def
    by (rule sum_list_member_le [where f = "\<lambda>k. dict_get a k 0 * dict_get b k 0", OF _ k])
       (auto intro!: mult_nonneg_nonneg dict_get_nonneg a b)
  moreover have "0 < dict_get a k 0 * dict_get b k 0" using ka kb by simp
  ultimately have dot: "0 < cosine_dot a b" by linarith
  have "(dict_get a k 0)\<^sup>2 \<le> cosine_sq ?ks a"
    unfolding cosine_sq_def
    by (rule sum_list_member_le [where f = "\<lambda>k. (dict_get a k 0)\<^sup>2", OF _ k]) simp
  moreover have "0 < (dict_get a k 0)\<^sup>2" using ka by simp
  ultimately have na: "0 < cosine_sq ?ks a" by linarith
  have "(dict_get b k 0)\<^sup>2 \<le> cosine_sq ?ks b"
    unfolding cosine_sq_def
    by (rule sum_list_member_le [where f = "\<lambda>k. (dict_get b k 0)\<^sup>2", OF _ k]) simp
  moreover have "0 < (dict_get b k 0)\<^sup>2" using kb by simp
  ultimately have nb: "0 < cosine_sq ?ks b" by linarith
  from na nb have "cosine_sim a b
      = Inr (cosine_dot a b / (sqrt (cosine_sq ?ks a) * sqrt (cosine_sq ?ks b)))"
    by (simp add: cosine_sim_unfold)
  then have "cosine_val a b = cosine_dot a b / (sqrt (cosine_sq ?ks a) * sqrt (cosine_sq ?ks b))"
    by (simp add: cosine_val_def)
  with dot na nb show ?thesis by simp
qed

lemma build_tfidf_nonneg:
  assumes "(mid, vec) \<in> set (build_tfidf movies)" "(t, w) \<in> set vec"
  shows "0 \<le> w"
proof -
  from build_tfidf_entry [OF assms(1)] obtain m where m: "m \<in> set movies"
    and vec: "vec = tfidf_vec (idf_of movies) (tokens_of m)" by blast
  from tfidf_vec_entry [OF assms(2) [unfolded vec]]
  have t: "t \<in> set (tokens_of m)"
    and w: "w = real (count_list (tokens_of m) t) * dict_get (idf_of movies) t 0" by simp_all
  have "0 \<le> dict_get (idf_of movies) t 0"
    unfolding idf_get [OF m t] using idf_formula_ge_1 [of movies t] by linarith
  then show ?thesis unfolding w by (rule mult_nonneg_nonneg [OF of_nat_0_le_iff])
qed

lemma liked_norm_pos: "0 < liked_norm tfidf_vectors ratings"
proof -
  have "0 \<le> sqrt (\<Sum>t\<in>liked_terms tfidf_vectors ratings. (liked_sum tfidf_vectors ratings t)\<^sup>2)"
    by (simp add: sum_nonneg)
  then show ?thesis by (auto simp: liked_norm_def Let_def)
qed

lemma vector_1:
  "dict_get (build_tfidf MOVIES) 1 [] =
     [(''action'', ln (3 / 2) + 1), (''sci-fi'', ln (3 / 2) + 1), (''thriller'', ln 2 + 1),
      (''dream'', ln 3 + 1), (''heist'', ln 3 + 1), (''mind-bending'', ln 3 + 1),
      (''nolan'', ln (3 / 2) + 1)]"
  unfolding tfidf_MOVIES by (simp add: dict_get_def)

lemma vector_5:
  "dict_get (build_tfidf MOVIES) 5 [] =
     [(''drama'', ln (3 / 2) + 1), (''thriller'', ln 2 + 1), (''class'', ln 3 + 1),
      (''korean'', ln 3 + 1), (''academy awards'', ln 3 + 1)]"
  unfolding tfidf_MOVIES by (simp add: dict_get_def)

lemma ln_2_plus_1_pos: "(0::real) < ln 2 + 1"
proof -
  have "(0::real) \<le> ln 2" by (rule ln_ge_zero) simp
  then show ?thesis by linarith
qed

lemma vector_nonneg:
  "\<forall>v\<in>snd ` set (dict_get (build_tfidf movies) mid []). (0::real) \<le> v"
proof (cases "map_of (build_tfidf movies) mid")
  case None
  then show ?thesis by (simp add: dict_get_def)
next
  case (Some vec)
  then have "(mid, vec) \<in> set (build_tfidf movies)" by (rule map_of_SomeD)
  from build_tfidf_nonneg [OF this] Some show ?thesis by (auto simp: dict_get_def)
qed

lemma profile_inception:
  assumes "build_user_profile (build_tfidf MOVIES) [(1, 5)] = Inr up"
  shows "\<forall>v\<in>snd ` set up. 0 \<le> v" and "0 < dict_get up ''thriller'' 0"
proof -
  let ?tv = "build_tfidf MOVIES" and ?r = "[(1::int, 5::real)]"
  have liked: "liked_of ?r = [1]" by (simp add: liked_of_def)
  then have "liked_of ?r \<noteq> []" by simp
  from build_user_profile_liked [OF this build_tfidf_is_dict [of MOVIES]] assms
  have d: "is_dict up" and keys: "set (dict_keys up) = liked_terms ?tv ?r"
    and val: "\<forall>t\<in>liked_terms ?tv ?r. map_of up t = Some (liked_sum ?tv ?r t / liked_norm ?tv ?r)"
    by auto
  have sum: "liked_sum ?tv ?r t = dict_get (dict_get ?tv 1 []) t 0" for t
    by (simp add: liked_sum_def liked)
  have sum_nonneg: "0 \<le> liked_sum ?tv ?r t" for t
    unfolding sum by (rule dict_get_nonneg [OF vector_nonneg])
  show "\<forall>v\<in>snd ` set up. 0 \<le> v"
  proof
    fix v assume "v \<in> snd ` set up"
    then obtain t where tv: "(t, v) \<in> set up" by auto
    then have "t \<in> liked_terms ?tv ?r" using in_dict_keys [OF tv] by (simp add: keys)
    from bspec [OF val this] is_dict_lookup [OF d tv, of 0]
    have "v = liked_sum ?tv ?r t / liked_norm ?tv ?r" by (simp add: dict_get_def)
    then show "0 \<le> v" using sum_nonneg [of t] liked_norm_pos [of ?tv ?r] by simp
  qed
  have "''thriller'' \<in> liked_terms ?tv ?r" unfolding liked_terms_inception by simp
  from bspec [OF val this]
  have "dict_get up ''thriller'' 0 = liked_sum ?tv ?r ''thriller'' / liked_norm ?tv ?r"
    by (simp add: dict_get_def)
  also have "liked_sum ?tv ?r ''thriller'' = ln 2 + 1"
    unfolding sum vector_1 by (simp add: dict_get_def)
  finally show "0 < dict_get up ''thriller'' 0"
    using ln_2_plus_1_pos liked_norm_pos [of ?tv ?r] by simp
qed

lemma cb_inception_5:
  assumes up: "build_user_profile (build_tfidf MOVIES) [(1, 5)] = Inr up"
    and cb: "predict_cb (build_tfidf MOVIES) up [(1, 5)] = Inr cb"
  shows "0 < dict_get cb 5 0"
proof -
  have "0 < dict_get (dict_get (build_tfidf MOVIES) 5 []) ''thriller'' 0"
    unfolding vector_5 using ln_2_plus_1_pos by (simp add: dict_get_def)
  from cosine_val_pos [OF profile_inception(1) [OF up] vector_nonneg profile_inception(2) [OF up] this]
  have pos: "0 < cosine_val up (dict_get (build_tfidf MOVIES) 5 [])" .
  from cb have "dict_get cb 5 0 = cosine_val up (dict_get (build_tfidf MOVIES) 5 []) * 5"
    unfolding predict_cb_eq
    by (auto simp: MOVIES_def dict_contains_def dict_keys_def dict_get_def)
  with pos show ?thesis by simp
qed

lemma pipeline_inception:
  "\<exists>hybrid. pipeline_hybrid [(1, 5)] = Inr hybrid \<and> is_dict hybrid
     \<and> set (dict_keys hybrid) = {2, 3, 4, 5}"
proof -
  from pipeline_hybrid_eq [of "[(1, 5)]"] obtain up cf cb
    where up: "build_user_profile (build_tfidf MOVIES) [(1, 5)] = Inr up"
      and cf: "predict_cf [(1, 5)] COMMUNITY 3 = Inr cf"
      and cb: "predict_cb (build_tfidf MOVIES) up [(1, 5)] = Inr cb"
      and h: "pipeline_hybrid [(1, 5)] = Inr (hybrid_scores cf cb 0.6)" by blast
  from cf have cf': "cf = [(2, 5), (3, 5), (4, 5)]" unfolding cf_pipeline_example by simp
  from predict_cb_unrated [OF cb] have "1 \<notin> set (dict_keys cb)" by (simp add: dict_keys_def)
  then have cb1: "dict_get cb 1 0 = 0" by (rule dict_get_absent)
  from cb_inception_5 [OF up cb] have cb5: "dict_get cb 5 0 \<noteq> 0" by simp
  have "set (dict_keys (hybrid_scores cf cb 0.6)) = {2, 3, 4, 5}"
    unfolding hybrid_scores_keys cf'
    using cb1 cb5 by (auto simp: movie_ids_def MOVIES_def dict_get_def)
  with h hybrid_scores_is_dict show ?thesis by blast
qed

lemma sci_fi_haystack:
  "\<forall>m\<in>set MOVIES. py_in ''sci-fi'' (haystack m) = (''Sci-Fi'' \<in> set (genres m))"
  by code_simp

lemma sci_fi_movies:
  "\<forall>m\<in>set MOVIES. (''Sci-Fi'' \<in> set (genres m)) = (movie_id m \<in> {1, 3, 4})"
  by code_simp

lemma find_movie_id: "find_movie mid = Inr m \<Longrightarrow> find_movie (movie_id m) = Inr m"
  using find_movie_Inr [of mid m] by simp

lemma recs_loop_elem:
  assumes "recs_loop boosted prompt = Inr rs" "r \<in> set rs"
  shows "(movie_id (fst r), fst (snd r)) \<in> set boosted"
    and "find_movie (movie_id (fst r)) = Inr (fst r)"
    and "snd (snd r) = py_in (py_lower prompt) (haystack (fst r))"
proof -
  from assms(2) have "(movie_id (fst r), fst (snd r))
      \<in> set (map (\<lambda>r. (movie_id (fst r), fst (snd r))) rs)" by auto
  then show "(movie_id (fst r), fst (snd r)) \<in> set boosted"
    by (simp only: recs_loop_ids [OF assms(1)])
  show "snd (snd r) = py_in (py_lower prompt) (haystack (fst r))"
    by (rule recs_loop_flags [OF assms])
  show "find_movie (movie_id (fst r)) = Inr (fst r)"
    using recs_loop_Inr [OF assms(1)] assms(2)
    by (induction boosted rs rule: list_all2_induct) (auto intro: find_movie_id)
qed

lemma py_lower_sci_fi: "py_lower ''sci-fi'' = ''sci-fi''"
  by code_simp

lemma boosted_entry:
  assumes "is_dict hybrid"
    and "(mid, s) \<in> set (sorted_desc (map (\<lambda>(mid, score). (mid, score + boost_of q mid)) hybrid))"
  shows "s = dict_get hybrid mid 0 + boost_of q mid"
proof -
  from assms(2) obtain score where score: "(mid, score) \<in> set hybrid"
    and s: "s = score + boost_of q mid" by (auto simp: set_sorted_desc)
  from is_dict_lookup [OF assms(1) score] s show ?thesis by simp
qed



section \<open>The content scores of the Inception request\<close>

lemma cosine_keys_set: "set (cosine_keys a b) = set (dict_keys a) \<union> set (dict_keys b)"
  by (simp add: cosine_keys_def)

lemma cosine_sq_left:
  "cosine_sq (cosine_keys a b) a = (\<Sum>k\<in>set (dict_keys a). (dict_get a k 0)\<^sup>2)"
proof -
  have "cosine_sq (cosine_keys a b) a = (\<Sum>k\<in>set (cosine_keys a b). (dict_get a k 0)\<^sup>2)"
    unfolding cosine_sq_def cosine_keys_def
    by (rule sum_list_distinct_conv_sum_set) simp
  also have "\<dots> = (\<Sum>k\<in>set (dict_keys a). (dict_get a k 0)\<^sup>2)"
    unfolding cosine_keys_set
    by (rule sum.mono_neutral_right) (auto simp: dict_get_absent)
  finally show ?thesis .
qed

lemma cosine_sq_right:
  "cosine_sq (cosine_keys a b) b = (\<Sum>k\<in>set (dict_keys b). (dict_get b k 0)\<^sup>2)"
proof -
  have "cosine_sq (cosine_keys a b) b = (\<Sum>k\<in>set (cosine_keys a b). (dict_get b k 0)\<^sup>2)"
    unfolding cosine_sq_def cosine_keys_def
    by (rule sum_list_distinct_conv_sum_set) simp
  also have "\<dots> = (\<Sum>k\<in>set (dict_keys b). (dict_get b k 0)\<^sup>2)"
    unfolding cosine_keys_set
    by (rule sum.mono_neutral_right) (auto simp: dict_get_absent)
  finally show ?thesis .
qed

lemma cosine_dot_common:
  "cosine_dot a b = (\<Sum>k\<in>set (dict_keys a) \<inter> set (dict_keys b). dict_get a k 0 * dict_get b k 0)"
proof -
  have "cosine_dot a b = (\<Sum>k\<in>set (cosine_keys a b). dict_get a k 0 * dict_get b k 0)"
    unfolding cosine_dot_def cosine_keys_def
    by (rule sum_list_distinct_conv_sum_set) simp
  also have "\<dots> = (\<Sum>k\<in>set (dict_keys a) \<inter> set (dict_keys b). dict_get a k 0 * dict_get b k 0)"
    unfolding cosine_keys_set
    by (rule sum.mono_neutral_right) (auto dest: dict_get_in_keys)
  finally show ?thesis .
qed

lemma vector_3:
  "dict_get (build_tfidf MOVIES) 3 [] =
     [(''adventure'', ln 3 + 1), (''drama'', ln (3 / 2) + 1), (''sci-fi'', ln (3 / 2) + 1),
      (''space'', ln 3 + 1), (''time'', ln 3 + 1), (''nolan'', ln (3 / 2) + 1),
      (''wormhole'', ln 3 + 1)]"
  unfolding tfidf_MOVIES by (simp add: dict_get_def)

lemma vector_4:
  "dict_get (build_tfidf MOVIES) 4 [] =
     [(''action'', ln (3 / 2) + 1), (''sci-fi'', ln (3 / 2) + 1), (''simulation'', ln 3 + 1),
      (''kung fu'', ln 3 + 1), (''ai'', ln 3 + 1)]"
  unfolding tfidf_MOVIES by (simp add: dict_get_def)

lemma cb_inception_3_less_4:
  assumes up: "build_user_profile (build_tfidf MOVIES) [(1, 5)] = Inr up"
  shows "cosine_val up (dict_get (build_tfidf MOVIES) 3 [])
           < cosine_val up (dict_get (build_tfidf MOVIES) 4 [])"
proof -
  let ?tv = "build_tfidf MOVIES" and ?r = "[(1::int, 5::real)]"
  define a :: real where "a = ln (3 / 2) + 1"
  define c :: real where "c = ln 3 + 1"
  define N where "N = liked_norm ?tv ?r"
  have a: "0 < a"
  proof -
    have "(0::real) \<le> ln (3 / 2)" by (rule ln_ge_zero) simp
    then show ?thesis unfolding a_def by linarith
  qed
  have N: "0 < N" unfolding N_def by (rule liked_norm_pos)
  have liked: "liked_of ?r = [1]" by (simp add: liked_of_def)
  then have "liked_of ?r \<noteq> []" by simp
  from build_user_profile_liked [OF this build_tfidf_is_dict [of MOVIES]] up
  have keys: "set (dict_keys up) = liked_terms ?tv ?r"
    and val: "\<forall>t\<in>liked_terms ?tv ?r. map_of up t = Some (liked_sum ?tv ?r t / N)"
    by (auto simp: N_def)
  have get: "dict_get up t 0 = dict_get (dict_get ?tv 1 []) t 0 / N"
    if "t \<in> liked_terms ?tv ?r" for t
    using bspec [OF val that] by (simp add: dict_get_def liked_sum_def liked)
  have sci: "dict_get up ''sci-fi'' 0 = a / N"
    using get [of "''sci-fi''"] unfolding liked_terms_inception vector_1
    by (simp add: dict_get_def a_def)
  have nol: "dict_get up ''nolan'' 0 = a / N"
    using get [of "''nolan''"] unfolding liked_terms_inception vector_1
    by (simp add: dict_get_def a_def)
  have act: "dict_get up ''action'' 0 = a / N"
    using get [of "''action''"] unfolding liked_terms_inception vector_1
    by (simp add: dict_get_def a_def)
  define D where "D = a / N * a + a / N * a"
  have D: "0 < D" unfolding D_def using a N by simp
  have dot3: "cosine_dot up (dict_get ?tv 3 []) = D"
  proof -
    have "set (dict_keys up) \<inter> set (dict_keys (dict_get ?tv 3 [])) = {''sci-fi'', ''nolan''}"
      unfolding keys liked_terms_inception vector_3 by (auto simp: dict_keys_def)
    moreover have "dict_get (dict_get ?tv 3 []) ''sci-fi'' 0 = a"
      "dict_get (dict_get ?tv 3 []) ''nolan'' 0 = a"
      unfolding vector_3 by (simp_all add: dict_get_def a_def)
    ultimately show ?thesis
      unfolding cosine_dot_common by (simp add: sci nol D_def)
  qed
  have dot4: "cosine_dot up (dict_get ?tv 4 []) = D"
  proof -
    have "set (dict_keys up) \<inter> set (dict_keys (dict_get ?tv 4 [])) = {''action'', ''sci-fi''}"
      unfolding keys liked_terms_inception vector_4 by (auto simp: dict_keys_def)
    moreover have "dict_get (dict_get ?tv 4 []) ''action'' 0 = a"
      "dict_get (dict_get ?tv 4 []) ''sci-fi'' 0 = a"
      unfolding vector_4 by (simp_all add: dict_get_def a_def)
    ultimately show ?thesis
      unfolding cosine_dot_common by (simp add: sci act D_def)
  qed
  define U where "U = (\<Sum>k\<in>set (dict_keys up). (dict_get up k 0)\<^sup>2)"
  have "(dict_get up ''sci-fi'' 0)\<^sup>2 \<le> U"
    unfolding U_def keys liked_terms_inception
    by (rule member_le_sum) simp_all
  moreover have "0 < (dict_get up ''sci-fi'' 0)\<^sup>2" unfolding sci using a N by simp
  ultimately have U: "0 < U" by linarith
  have sq3: "(\<Sum>k\<in>set (dict_keys (dict_get ?tv 3 [])). (dict_get (dict_get ?tv 3 []) k 0)\<^sup>2)
      = 3 * a\<^sup>2 + 4 * c\<^sup>2"
    unfolding vector_3 by (simp add: dict_keys_def dict_get_def a_def c_def)
  have sq4: "(\<Sum>k\<in>set (dict_keys (dict_get ?tv 4 [])). (dict_get (dict_get ?tv 4 []) k 0)\<^sup>2)
      = 2 * a\<^sup>2 + 3 * c\<^sup>2"
    unfolding vector_4 by (simp add: dict_keys_def dict_get_def a_def c_def)
  have a2: "0 < a\<^sup>2" using a by simp
  have c2: "0 \<le> c\<^sup>2" by simp
  have pos4: "0 < 2 * a\<^sup>2 + 3 * c\<^sup>2" using a2 c2 by linarith
  have less: "2 * a\<^sup>2 + 3 * c\<^sup>2 < 3 * a\<^sup>2 + 4 * c\<^sup>2" using a2 c2 by linarith
  have pos3: "0 < 3 * a\<^sup>2 + 4 * c\<^sup>2" using pos4 less by linarith
  have cos3: "cosine_val up (dict_get ?tv 3 []) = D / (sqrt U * sqrt (3 * a\<^sup>2 + 4 * c\<^sup>2))"
    using U pos3
    by (simp add: cosine_val_def cosine_sim_unfold cosine_sq_left cosine_sq_right dot3 sq3
        U_def [symmetric])
  have cos4: "cosine_val up (dict_get ?tv 4 []) = D / (sqrt U * sqrt (2 * a\<^sup>2 + 3 * c\<^sup>2))"
    using U pos4
    by (simp add: cosine_val_def cosine_sim_unfold cosine_sq_left cosine_sq_right dot4 sq4
        U_def [symmetric])
  have "sqrt U * sqrt (2 * a\<^sup>2 + 3 * c\<^sup>2) < sqrt U * sqrt (3 * a\<^sup>2 + 4 * c\<^sup>2)"
    using U less by simp
  moreover have "0 < sqrt U * sqrt (2 * a\<^sup>2 + 3 * c\<^sup>2)" using U pos4 by simp
  ultimately show ?thesis
    unfolding cos3 cos4 using D by (simp add: divide_strict_left_mono)
qed

text \<open>
  As stated, C3 fails for both predictors. In the pipeline itself, for the request
  that rates Inception 5, the content predictor returns the items 2, 3, 4, 5 in catalog
  order although item 4 scores higher than item 3 (both share two terms of weight
  \<open>ln (3 / 2) + 1\<close> with the profile, and the vector of item 4 is the shorter one). The
  collaborative predictor's output follows the catalog as well: a peer who rated item 2
  lower than item 3 yields an ascending pair.
\<close>

theorem predictors_unsorted_counterexample:
  "(case build_user_profile (build_tfidf MOVIES) [(1, 5)] of
      Inl e \<Rightarrow> False
    | Inr user_profile \<Rightarrow>
        (case predict_cb (build_tfidf MOVIES) user_profile [(1, 5)] of
           Inl e \<Rightarrow> False
         | Inr cb \<Rightarrow> dict_keys cb = [2, 3, 4, 5] \<and> \<not> sorted_wrt (\<lambda>x y. snd y \<le> snd x) cb))
   \<and> predict_cf [(1, 5)] [\<lparr>userId = ''u_carl'', peer_ratings = [(1, 1), (2, 1), (3, 5), (4, 3)]\<rparr>] 3
       = Inr [(2, 1), (3, 5), (4, 3)]
   \<and> \<not> sorted_wrt (\<lambda>x y. snd y \<le> snd x) [(2::int, 1::real), (3, 5), (4, 3)]"
proof -
  obtain up where up: "build_user_profile (build_tfidf MOVIES) [(1, 5)] = Inr up"
    using build_user_profile_total by blast
  define x where "x = (\<lambda>mid. cosine_val up (dict_get (build_tfidf MOVIES) mid []) * 5)"
  have cb: "predict_cb (build_tfidf MOVIES) up [(1, 5)]
      = Inr [(2, x 2), (3, x 3), (4, x 4), (5, x 5)]"
    unfolding predict_cb_eq x_def
    by (simp add: MOVIES_def dict_contains_def dict_keys_def)
  have "x 3 < x 4" unfolding x_def using cb_inception_3_less_4 [OF up] by simp
  then have ns: "\<not> sorted_wrt (\<lambda>x y. snd y \<le> snd x) [(2::int, x 2), (3, x 3), (4, x 4), (5, x 5)]"
    by simp
  have keys: "dict_keys [(2::int, x 2), (3, x 3), (4, x 4), (5, x 5)] = [2, 3, 4, 5]"
    by (simp add: dict_keys_def)
  have 1: "case build_user_profile (build_tfidf MOVIES) [(1, 5)] of
      Inl e \<Rightarrow> False
    | Inr user_profile \<Rightarrow>
        (case predict_cb (build_tfidf MOVIES) user_profile [(1, 5)] of
           Inl e \<Rightarrow> False
         | Inr cb \<Rightarrow> dict_keys cb = [2, 3, 4, 5] \<and> \<not> sorted_wrt (\<lambda>x y. snd y \<le> snd x) cb)"
    by (simp only: up cb sum.case keys ns not_False_eq_True simp_thms)
  have 2: "\<not> sorted_wrt (\<lambda>x y. snd y \<le> snd x) [(2::int, 1::real), (3, 5), (4, 3)]" by simp
  from 1 cf_unsorted_example 2 show ?thesis by blast
qed

end
